theory Spec2Isabelle
  imports Complex_Main "HOL-Library.Sublist"
begin

section \<open>Strings and character classes\<close>

text \<open>
  A command is a JavaScript string. It is modelled as a \<^typ>\<open>string\<close>, each
  \<^typ>\<open>char\<close> standing for one code unit in the range 0..255. The classes below are
  the ones the regular expressions of \<^verbatim>\<open>src/index.ts\<close> use, without the
  \<^verbatim>\<open>u\<close> and \<^verbatim>\<open>i\<close> flags: \<^verbatim>\<open>\s\<close> (and the characters
  \<^verbatim>\<open>trim()\<close> removes) is TAB, LF, VT, FF, CR, SPACE and NBSP in that range,
  \<^verbatim>\<open>\w\<close> is \<^verbatim>\<open>[A-Za-z0-9_]\<close>, \<^verbatim>\<open>\d\<close> is \<^verbatim>\<open>[0-9]\<close>.
\<close>

definition code_unit :: "char \<Rightarrow> nat" where
  "code_unit c = of_char c"

definition is_space :: "char \<Rightarrow> bool" where
  "is_space c = (let n = code_unit c in (9 \<le> n \<and> n \<le> 13) \<or> n = 32 \<or> n = 160)"

definition not_space :: "char \<Rightarrow> bool" where
  "not_space c = (\<not> is_space c)"

definition is_digit :: "char \<Rightarrow> bool" where
  "is_digit c = (let n = code_unit c in 48 \<le> n \<and> n \<le> 57)"

definition is_word :: "char \<Rightarrow> bool" where
  "is_word c = (let n = code_unit c in
     (48 \<le> n \<and> n \<le> 57) \<or> (65 \<le> n \<and> n \<le> 90) \<or> (97 \<le> n \<and> n \<le> 122) \<or> n = 95)"

text \<open>\<^verbatim>\<open>[;&]\<close> and \<^verbatim>\<open>[^;&]\<close> of the directory-change pattern.\<close>

definition is_delim :: "char \<Rightarrow> bool" where
  "is_delim c = (c = CHR '';'' \<or> c = CHR ''&'')"

definition not_delim :: "char \<Rightarrow> bool" where
  "not_delim c = (\<not> is_delim c)"

text \<open>\<^verbatim>\<open>[\w@/.:-]\<close>, the characters of a runner's subcommand token.\<close>

definition is_pkg_char :: "char \<Rightarrow> bool" where
  "is_pkg_char c = (is_word c \<or> c = CHR ''@'' \<or> c = CHR ''/'' \<or> c = CHR ''.''
     \<or> c = CHR '':'' \<or> c = CHR ''-'')"

text \<open>\<^verbatim>\<open>[\d^~>=<.*]\<close>, the characters of a version suffix.\<close>

definition is_version_char :: "char \<Rightarrow> bool" where
  "is_version_char c = (is_digit c \<or> c = CHR ''^'' \<or> c = CHR ''~'' \<or> c = CHR ''>''
     \<or> c = CHR ''='' \<or> c = CHR ''<'' \<or> c = CHR ''.'' \<or> c = CHR ''*'')"

text \<open>\<^verbatim>\<open>String.prototype.trim\<close>, \<^verbatim>\<open>startsWith\<close> and \<^verbatim>\<open>includes\<close>
  (\<open>includes_str\<close>: the source's name is a keyword here).\<close>

definition trim :: "string \<Rightarrow> string" where
  "trim s = rev (dropWhile is_space (rev (dropWhile is_space s)))"

fun startsWith :: "string \<Rightarrow> string \<Rightarrow> bool" where
  "startsWith s [] = True"
| "startsWith [] (p # ps) = False"
| "startsWith (c # cs) (p # ps) = (c = p \<and> startsWith cs ps)"

fun includes_str :: "string \<Rightarrow> string \<Rightarrow> bool" where
  "includes_str [] p = startsWith [] p"
| "includes_str (c # cs) p = (startsWith (c # cs) p \<or> includes_str cs p)"


section \<open>Regular expressions with backtracking\<close>

text \<open>
  The fragment of ECMAScript regular expressions that the source uses: a literal
  character, a character class, concatenation, the greedy quantifiers \<^verbatim>\<open>*\<close> and
  \<^verbatim>\<open>?\<close> (\<^verbatim>\<open>+\<close> is one copy followed by \<^verbatim>\<open>*\<close>) and the end-of-input
  assertion \<^verbatim>\<open>$\<close>. \<open>rmatch r s\<close> lists what is left of \<open>s\<close> after each way of
  matching \<open>r\<close> at the start of \<open>s\<close>, in the order in which a backtracking matcher
  tries them: its head is the match the engine reports. An iteration of \<^verbatim>\<open>*\<close>
  that consumes nothing is not tried again, as the language specifies.
  The test \<open>length t \<le> length s\<close> in the concatenation always holds
  (see \<open>rmatch_length\<close>); it is there for the termination proof.
\<close>

datatype regex =
    Eps
  | Lit char
  | Class "char \<Rightarrow> bool"
  | Cat regex regex
  | Star regex
  | Opt regex
  | Eoi

function rmatch :: "regex \<Rightarrow> string \<Rightarrow> string list" where
  "rmatch Eps s = [s]"
| "rmatch (Lit c) s = (case s of [] \<Rightarrow> [] | x # xs \<Rightarrow> if x = c then [xs] else [])"
| "rmatch (Class p) s = (case s of [] \<Rightarrow> [] | x # xs \<Rightarrow> if p x then [xs] else [])"
| "rmatch (Cat r1 r2) s =
     concat (map (\<lambda>t. if length t \<le> length s then rmatch r2 t else []) (rmatch r1 s))"
| "rmatch (Star r) s =
     concat (map (\<lambda>t. if length t < length s then rmatch (Star r) t else []) (rmatch r s)) @ [s]"
| "rmatch (Opt r) s = rmatch r s @ [s]"
| "rmatch Eoi s = (if s = [] then [s] else [])"
  by pat_completeness auto
termination
  by (relation "measures [\<lambda>(r, s). length s, \<lambda>(r, s). size r]") auto

definition Plus :: "regex \<Rightarrow> regex" where
  "Plus r = Cat r (Star r)"

fun Str :: "string \<Rightarrow> regex" where
  "Str [] = Eps"
| "Str (c # cs) = Cat (Lit c) (Str cs)"

text \<open>
  \<^verbatim>\<open>s.replace(/^r/, "")\<close>: the pattern can only match at index 0; the first match,
  if there is one, is removed.
\<close>

definition replace_at_start :: "regex \<Rightarrow> string \<Rightarrow> string" where
  "replace_at_start r s = (case rmatch r s of [] \<Rightarrow> s | t # _ \<Rightarrow> t)"

text \<open>
  \<^verbatim>\<open>s.replace(/r/, "")\<close> without the \<^verbatim>\<open>g\<close> flag: the leftmost match is
  removed; every start index is tried in turn, the end of the string included.
\<close>

fun replace_first :: "regex \<Rightarrow> string \<Rightarrow> string" where
  "replace_first r [] = (case rmatch r [] of [] \<Rightarrow> [] | t # _ \<Rightarrow> t)"
| "replace_first r (c # cs) =
     (case rmatch r (c # cs) of [] \<Rightarrow> c # replace_first r cs | t # _ \<Rightarrow> t)"

text \<open>
  \<^verbatim>\<open>s.match(/pre(grp)/)\<close> followed by \<^verbatim>\<open>match[1]\<close>: the text of the capture
  group of the leftmost match, where the group ends the pattern. \<open>None\<close> is the
  \<^verbatim>\<open>null\<close> of a failed match.
\<close>

definition captures_at :: "regex \<Rightarrow> regex \<Rightarrow> string \<Rightarrow> string list" where
  "captures_at pre grp s =
     concat (map (\<lambda>t. map (\<lambda>u. take (length t - length u) t) (rmatch grp t)) (rmatch pre s))"

fun match_capture :: "regex \<Rightarrow> regex \<Rightarrow> string \<Rightarrow> string option" where
  "match_capture pre grp [] = (case captures_at pre grp [] of [] \<Rightarrow> None | m # _ \<Rightarrow> Some m)"
| "match_capture pre grp (c # cs) =
     (case captures_at pre grp (c # cs) of [] \<Rightarrow> match_capture pre grp cs | m # _ \<Rightarrow> Some m)"


section \<open>Classification of a command\<close>

text \<open>The table \<^verbatim>\<open>COMMAND_GROUPS\<close>: a group name with its patterns, in order.\<close>

definition COMMAND_GROUPS :: "(string \<times> string list) list" where
  "COMMAND_GROUPS =
    [(''pytest'', [''pytest'', ''python3 -m pytest'', ''python -m pytest'', ''uv run pytest'',
        ''uv run python -m pytest'']),
     (''vitest'', [''vitest'']),
     (''jest'', [''jest'']),
     (''tsc'', [''tsc'']),
     (''eslint'', [''eslint'']),
     (''npm install'', [''npm install'', ''npm ci'', ''pnpm install'', ''pnpm i'', ''bun install'',
        ''bun add'']),
     (''npm run'', [''npm run'', ''pnpm run'', ''pnpm exec'', ''bun run'']),
     (''npm'', [''npm '', ''pnpm '', ''bun '']),
     (''pip'', [''pip install'', ''pip3 install'', ''uv add'', ''uv pip install'',
        ''uv pip compile'', ''uv pip sync'']),
     (''uv'', [''uv run'', ''uv sync'', ''uv lock'', ''uv venv'', ''uv init'', ''uv remove'',
        ''uv tree'', ''uv '']),
     (''git'', [''git '']),
     (''grep/rg'', [''grep '', ''rg '']),
     (''find'', [''find '']),
     (''cat/head/tail'', [''cat '', ''head '', ''tail '']),
     (''ls'', [''ls '']),
     (''file ops'', [''cp '', ''mv '', ''mkdir '', ''rm '', ''rmdir '', ''chmod '', ''chown '',
        ''ln '', ''touch '']),
     (''docker'', [''docker '']),
     (''curl/wget'', [''curl '', ''wget '']),
     (''cargo test'', [''cargo test'']),
     (''cargo fmt'', [''cargo fmt'']),
     (''cargo clippy'', [''cargo clippy'']),
     (''cargo'', [''cargo '']),
     (''go'', [''go build'', ''go test'', ''go run'']),
     (''make'', [''make ''])]"

text \<open>\<^verbatim>\<open>/^(cd\s+[^;&]+[;&]\s*)+/\<close>\<close>

definition cd_clause :: regex where
  "cd_clause =
     Cat (Lit CHR ''c'') (Cat (Lit CHR ''d'') (Cat (Plus (Class is_space))
       (Cat (Plus (Class not_delim)) (Cat (Class is_delim) (Star (Class is_space))))))"

definition cd_prefix :: regex where
  "cd_prefix = Plus cd_clause"

text \<open>\<^verbatim>\<open>/^(\w+=\S+\s+)+/\<close>\<close>

definition env_clause :: regex where
  "env_clause =
     Cat (Plus (Class is_word)) (Cat (Lit CHR ''='') (Cat (Plus (Class not_space))
       (Plus (Class is_space))))"

definition env_prefix :: regex where
  "env_prefix = Plus env_clause"

definition extractBaseCommand :: "string \<Rightarrow> string" where
  "extractBaseCommand command =
     (let cmd = trim command;
          cmd = replace_at_start cd_prefix cmd;
          cmd = replace_at_start env_prefix cmd
      in trim cmd)"

text \<open>
  \<^verbatim>\<open>new RegExp(`${runner}\\s+(?:--\\s+)?([\\w@/.:-]+)`)\<close>, for a runner name made of
  letters (the three names the classifier passes), and \<^verbatim>\<open>/@[\d^~>=<.*]+$/\<close>.
\<close>

definition runner_head :: "string \<Rightarrow> regex" where
  "runner_head runner =
     Cat (Str runner) (Cat (Plus (Class is_space))
       (Opt (Cat (Lit CHR ''-'') (Cat (Lit CHR ''-'') (Plus (Class is_space))))))"

definition pkg_token :: regex where
  "pkg_token = Plus (Class is_pkg_char)"

definition version_suffix :: regex where
  "version_suffix = Cat (Lit CHR ''@'') (Cat (Plus (Class is_version_char)) Eoi)"

definition extractRunnerCommand :: "string \<Rightarrow> string \<Rightarrow> string option" where
  "extractRunnerCommand base runner =
     (case match_capture (runner_head runner) pkg_token base of
        None \<Rightarrow> None
      | Some m \<Rightarrow> Some (replace_first version_suffix m))"

definition RUNNERS :: "string list" where
  "RUNNERS = [''npx'', ''bunx'', ''uvx'']"

text \<open>
  The first loop of \<^verbatim>\<open>classifyCommand\<close>: \<open>None\<close> when the loop ends without a
  \<^verbatim>\<open>return\<close>. \<^verbatim>\<open>if (sub)\<close> is false for \<^verbatim>\<open>null\<close> and for the empty string.
\<close>

fun classify_runner :: "string list \<Rightarrow> string \<Rightarrow> string option" where
  "classify_runner [] base = None"
| "classify_runner (runner # rest) base =
     (if startsWith base (runner @ '' '')
      then (case extractRunnerCommand base runner of
              None \<Rightarrow> Some runner
            | Some sub \<Rightarrow> if sub \<noteq> [] then Some (runner @ '' '' @ sub) else Some runner)
      else classify_runner rest base)"

text \<open>The second loop: the inner loop over the patterns of one entry, then the table.\<close>

fun match_patterns :: "string list \<Rightarrow> string \<Rightarrow> bool" where
  "match_patterns [] base = False"
| "match_patterns (pattern # rest) base = (if includes_str base pattern then True
                                          else match_patterns rest base)"

fun classify_group :: "(string \<times> string list) list \<Rightarrow> string \<Rightarrow> string option" where
  "classify_group [] base = None"
| "classify_group ((groupName, patterns) # rest) base =
     (if match_patterns patterns base then Some groupName else classify_group rest base)"

definition classifyCommand :: "string \<Rightarrow> string" where
  "classifyCommand command =
     (let base = extractBaseCommand command
      in case classify_runner RUNNERS base of
           Some name \<Rightarrow> name
         | None \<Rightarrow> (case classify_group COMMAND_GROUPS base of
                      Some name \<Rightarrow> name
                    | None \<Rightarrow> ''other''))"


section \<open>Token estimate and records\<close>

text \<open>
  \<^verbatim>\<open>Math.ceil(chars / CHARS_PER_TOKEN)\<close>. The argument is a character count, a
  natural number; the quotient is taken in the reals, which is what the division of
  doubles computes when the count is below \<open>2 ^ 53\<close> and the divisor is 4.
\<close>

definition CHARS_PER_TOKEN :: nat where
  "CHARS_PER_TOKEN = 4"

definition estimateTokens :: "nat \<Rightarrow> nat" where
  "estimateTokens chars = nat \<lceil>real chars / real CHARS_PER_TOKEN\<rceil>"

record BashRecord =
  timestamp :: nat
  command :: string
  outputChars :: nat
  estimatedTokens :: nat
  truncated :: bool
  isError :: bool

text \<open>
  The record that the \<^verbatim>\<open>tool_result\<close> handler builds from the command, the
  lengths of the text parts of the output and the two flags.
\<close>

definition new_record :: "nat \<Rightarrow> string \<Rightarrow> nat list \<Rightarrow> bool \<Rightarrow> bool \<Rightarrow> BashRecord" where
  "new_record now cmd part_lengths trunc err =
     (let chars = foldl (+) 0 part_lengths
      in \<lparr>timestamp = now, command = cmd, outputChars = chars,
          estimatedTokens = estimateTokens chars, truncated = trunc, isError = err\<rparr>)"


section \<open>Numbers as the report prints them\<close>

text \<open>
  A number of the report is a double. The totals are counts below \<open>2 ^ 53\<close> and
  are doubles as they stand; their quotient and its product with 100 are rounded to
  the nearest double, to the one with an even significand on a tie (IEEE 754, as
  the language specifies for \<^verbatim>\<open>/\<close> and \<^verbatim>\<open>*\<close>). A finite double that is not
  negative is kept as \<open>Finite m e\<close>, which stands for \<open>m * 2 ^ e\<close>.

  \<open>to_double n d\<close> is the double nearest to the fraction \<open>n / d\<close> of two positive
  numbers: the exponent \<open>e\<close> is the one that brings \<open>n / d / 2 ^ e\<close> between
  \<open>2 ^ 52\<close> and \<open>2 ^ 53\<close>, and the significand is that quotient rounded to an
  integer. (For counts below \<open>2 ^ 53\<close> the quotient is far from the ranges where a
  double overflows or loses precision.)
\<close>

datatype jsnum = NaN | Infinity | Finite nat int

fun bit_length :: "nat \<Rightarrow> nat" where
  "bit_length n = (if n = 0 then 0 else Suc (bit_length (n div 2)))"

text \<open>The fraction \<open>n / (d * 2 ^ e)\<close>, for an exponent of either sign.\<close>

definition shifted :: "nat \<Rightarrow> nat \<Rightarrow> int \<Rightarrow> nat \<times> nat" where
  "shifted n d e = (if 0 \<le> e then (n, d * 2 ^ nat e) else (n * 2 ^ nat (- e), d))"

text \<open>The integer nearest to \<open>n / d\<close>, the even one on a tie.\<close>

definition nearest_even :: "nat \<Rightarrow> nat \<Rightarrow> nat" where
  "nearest_even n d =
     (let q = n div d; r = n mod d
      in if 2 * r < d then q
         else if d < 2 * r then q + 1
         else if even q then q else q + 1)"

definition to_double :: "nat \<Rightarrow> nat \<Rightarrow> jsnum" where
  "to_double n d =
     (let e0 = int (bit_length n) - int (bit_length d) - 53;
          e = (case shifted n d e0 of (p, q) \<Rightarrow> if 2 ^ 53 * q \<le> p then e0 + 1 else e0)
      in case shifted n d e of (p, q) \<Rightarrow> Finite (nearest_even p q) e)"

text \<open>
  \<^verbatim>\<open>a / b\<close> for two counts: not a number for \<open>0 / 0\<close>, infinite for a positive
  count over 0. \<^verbatim>\<open>x * k\<close> for a double \<open>x\<close> and a count \<open>k\<close>.
\<close>

definition js_div :: "nat \<Rightarrow> nat \<Rightarrow> jsnum" where
  "js_div a b =
     (if b = 0 then (if a = 0 then NaN else Infinity)
      else if a = 0 then Finite 0 0
      else to_double a b)"

fun js_mul :: "jsnum \<Rightarrow> nat \<Rightarrow> jsnum" where
  "js_mul NaN k = NaN"
| "js_mul Infinity k = (if k = 0 then NaN else Infinity)"
| "js_mul (Finite m e) k =
     (if m * k = 0 then Finite 0 0
      else case shifted (m * k) 1 (- e) of (p, q) \<Rightarrow> to_double p q)"

function decimal :: "nat \<Rightarrow> string" where
  "decimal n = (if n < 10 then [''0123456789'' ! n]
                else decimal (n div 10) @ [''0123456789'' ! (n mod 10)])"
  by pat_completeness auto
termination
  by (relation "measure id") auto

text \<open>
  \<^verbatim>\<open>toFixed(1)\<close> of a finite \<open>x\<close> below \<open>10 ^ 21\<close> (a percentage here is at most
  100) prints the integer \<open>n\<close> with \<open>n / 10\<close> nearest to the exact value of \<open>x\<close>,
  the larger one on a tie, with a point before its last digit: for \<open>x = p / q\<close>
  that is \<open>n = (20 * p + q) div (2 * q)\<close>.
\<close>

fun toFixed1 :: "jsnum \<Rightarrow> string" where
  "toFixed1 NaN = ''NaN''"
| "toFixed1 Infinity = ''Infinity''"
| "toFixed1 (Finite m e) =
     (case shifted m 1 (- e) of (p, q) \<Rightarrow>
        let n = (20 * p + q) div (2 * q)
        in decimal (n div 10) @ ''.'' @ decimal (n mod 10))"


section \<open>The report command\<close>

text \<open>
  A \<^verbatim>\<open>Map\<close> keeps its keys in the order of their first insertion:
  \<^verbatim>\<open>set\<close> on a key that is present replaces the value where it stands.
\<close>

fun Map_get :: "('k \<times> 'v) list \<Rightarrow> 'k \<Rightarrow> 'v option" where
  "Map_get [] k = None"
| "Map_get ((k', v) # m) k = (if k' = k then Some v else Map_get m k)"

fun Map_set :: "('k \<times> 'v) list \<Rightarrow> 'k \<Rightarrow> 'v \<Rightarrow> ('k \<times> 'v) list" where
  "Map_set [] k v = [(k, v)]"
| "Map_set ((k', v') # m) k v = (if k' = k then (k, v) # m else (k', v') # Map_set m k v)"

text \<open>
  \<^verbatim>\<open>Array.prototype.sort\<close> with a comparison function: a stable sort, the element
  \<open>x\<close> staying before \<open>y\<close> unless \<open>cmp x y > 0\<close>.
\<close>

fun sort_insert :: "('a \<Rightarrow> 'a \<Rightarrow> int) \<Rightarrow> 'a \<Rightarrow> 'a list \<Rightarrow> 'a list" where
  "sort_insert cmp x [] = [x]"
| "sort_insert cmp x (y # ys) =
     (if cmp x y \<le> 0 then x # y # ys else y # sort_insert cmp x ys)"

fun array_sort :: "('a \<Rightarrow> 'a \<Rightarrow> int) \<Rightarrow> 'a list \<Rightarrow> 'a list" where
  "array_sort cmp [] = []"
| "array_sort cmp (x # xs) = sort_insert cmp x (array_sort cmp xs)"

text \<open>\<^verbatim>\<open>s.length > n ? s.slice(0, n - 3) + "..." : s\<close>\<close>

definition shorten :: "nat \<Rightarrow> string \<Rightarrow> string" where
  "shorten n s = (if length s > n then take (n - 3) s @ ''...'' else s)"

record GroupData =
  count :: nat
  totalTokens :: nat
  totalChars :: nat
  commands :: "string list"

text \<open>The body of the loop over the records, and the loop.\<close>

definition add_record ::
  "bool \<Rightarrow> (string \<times> GroupData) list \<Rightarrow> BashRecord \<Rightarrow> (string \<times> GroupData) list" where
  "add_record showCommands groups r =
     (let name = classifyCommand (command r);
          existing = (case Map_get groups name of
                        Some d \<Rightarrow> d
                      | None \<Rightarrow> \<lparr>count = 0, totalTokens = 0, totalChars = 0, commands = []\<rparr>);
          existing = existing\<lparr>count := count existing + 1\<rparr>;
          existing = existing\<lparr>totalTokens := totalTokens existing + estimatedTokens r\<rparr>;
          existing = existing\<lparr>totalChars := totalChars existing + outputChars r\<rparr>;
          existing = (if showCommands \<and> length (commands existing) < 3
                      then existing\<lparr>commands := commands existing @ [shorten 60 (command r)]\<rparr>
                      else existing)
      in Map_set groups name existing)"

definition group_records :: "bool \<Rightarrow> BashRecord list \<Rightarrow> (string \<times> GroupData) list" where
  "group_records showCommands records = foldl (add_record showCommands) [] records"

text \<open>\<^verbatim>\<open>(a, b) => b[1].totalTokens - a[1].totalTokens\<close>\<close>

definition by_tokens_desc :: "string \<times> GroupData \<Rightarrow> string \<times> GroupData \<Rightarrow> int" where
  "by_tokens_desc a b = int (totalTokens (snd b)) - int (totalTokens (snd a))"

definition sorted_groups :: "bool \<Rightarrow> BashRecord list \<Rightarrow> (string \<times> GroupData) list" where
  "sorted_groups showCommands records =
     array_sort by_tokens_desc (group_records showCommands records)"

text \<open>\<^verbatim>\<open>records.reduce((sum, r) => sum + r.estimatedTokens, 0)\<close>\<close>

definition grand_total :: "BashRecord list \<Rightarrow> nat" where
  "grand_total records = foldl (\<lambda>sum r. sum + estimatedTokens r) 0 records"

text \<open>
  One line of the summary, as data: the group, its tokens, the printed percentage,
  its calls, its characters and its example commands (the rendering adds colour
  codes and unit suffixes to these).
\<close>

record SummaryLine =
  line_group :: string
  line_tokens :: nat
  line_pct :: string
  line_calls :: nat
  line_chars :: nat
  line_commands :: "string list"

definition percentage :: "nat \<Rightarrow> nat \<Rightarrow> jsnum" where
  "percentage tokens grand = js_mul (js_div tokens grand) 100"

definition summary_line :: "nat \<Rightarrow> string \<times> GroupData \<Rightarrow> SummaryLine" where
  "summary_line grand entry =
     (case entry of (name, data) \<Rightarrow>
        \<lparr>line_group = name, line_tokens = totalTokens data,
         line_pct = toFixed1 (percentage (totalTokens data) grand),
         line_calls = count data, line_chars = totalChars data,
         line_commands = commands data\<rparr>)"

text \<open>The lines of the summary, in the order in which the handler prints them.\<close>

definition summary_lines :: "bool \<Rightarrow> BashRecord list \<Rightarrow> SummaryLine list" where
  "summary_lines showCommands records =
     (let sorted = sorted_groups showCommands records;
          grand = grand_total records
      in map (summary_line grand) sorted)"

definition by_estimate_desc :: "BashRecord \<Rightarrow> BashRecord \<Rightarrow> int" where
  "by_estimate_desc a b = int (estimatedTokens b) - int (estimatedTokens a)"

text \<open>
  What the handler of \<^verbatim>\<open>/pirs\<close> hands to \<^verbatim>\<open>ctx.ui.notify\<close>: the notice that
  nothing is recorded, or one of the three reports, each with the figures of its
  closing line.
\<close>

datatype report =
    NoData
  | AllCommands "BashRecord list" nat nat
  | TopCommands "BashRecord list"
  | Summary bool "SummaryLine list" nat nat

definition pirs :: "string option \<Rightarrow> BashRecord list \<Rightarrow> report" where
  "pirs args records =
     (if length records = 0 then NoData
      else
        let mode = (case args of
                      None \<Rightarrow> ''summary''
                    | Some a \<Rightarrow> if trim a = [] then ''summary'' else trim a)
        in if mode = ''all'' then
             AllCommands (map (\<lambda>r. r\<lparr>command := shorten 80 (command r)\<rparr>) records)
               (length records) (grand_total records)
           else if mode = ''top'' then
             TopCommands (map (\<lambda>r. r\<lparr>command := shorten 70 (command r)\<rparr>)
               (take 10 (array_sort by_estimate_desc records)))
           else
             let showCommands = (mode = ''groups'')
             in Summary showCommands (summary_lines showCommands records)
                  (length records) (grand_total records))"


section \<open>Notions used in the statements\<close>

text \<open>
  The order in which the distinct elements of a list are first met, and the value of
  a field of a group in the map, 0 when the group is absent.
\<close>

primrec encounter_order :: "'a list \<Rightarrow> 'a list" where
  "encounter_order [] = []"
| "encounter_order (x # xs) = x # filter (\<lambda>y. y \<noteq> x) (encounter_order xs)"

definition group_field :: "(GroupData \<Rightarrow> nat) \<Rightarrow> (string \<times> GroupData) list \<Rightarrow> string \<Rightarrow> nat" where
  "group_field f groups g = (case Map_get groups g of None \<Rightarrow> 0 | Some d \<Rightarrow> f d)"


section \<open>Lemmas\<close>

subsection \<open>Arithmetic\<close>

lemma estimateTokens_div: "estimateTokens n = (n + 3) div 4"
proof -
  have "\<lceil>real n / real CHARS_PER_TOKEN\<rceil> = \<lceil>(of_int (int n) :: real) / of_int 4\<rceil>"
    by (simp add: CHARS_PER_TOKEN_def)
  also have "\<dots> = - (- int n div 4)"
    by (rule ceiling_divide_eq_div)
  also have "\<dots> = (int n + 3) div 4"
    by presburger
  finally have "\<lceil>real n / real CHARS_PER_TOKEN\<rceil> = int ((n + 3) div 4)"
    by (simp add: zdiv_int)
  then show ?thesis
    by (simp add: estimateTokens_def)
qed


declare bit_length.simps [simp del]

text \<open>
  \<open>to_double n d\<close> is a nearest double: its significand has 53 bits and its
  value is within half a unit in the last place of \<open>n / d\<close>.
\<close>

lemma bit_length_bounds: "0 < n \<Longrightarrow> 2 ^ (bit_length n - 1) \<le> n \<and> n < 2 ^ bit_length n"
proof (induction n rule: bit_length.induct)
  case (1 n)
  show ?case
  proof (cases "n div 2 = 0")
    case True
    with "1.prems" have "n = 1" by (simp add: div_eq_0_iff) 
    then show ?thesis by (simp add: bit_length.simps)
  next
    case False
    then have pos: "0 < n div 2" by simp
    let ?k = "bit_length (n div 2)"
    have k: "2 ^ (?k - 1) \<le> n div 2" "n div 2 < 2 ^ ?k"
      using "1.IH" [OF _ pos] "1.prems" by simp_all
    have kpos: "0 < ?k"
      using pos by (subst bit_length.simps) simp
    have len: "bit_length n = Suc ?k"
      using "1.prems" by (subst bit_length.simps) simp
    have "(2::nat) ^ ?k = 2 * 2 ^ (?k - 1)"
      using kpos by (cases ?k) simp_all
    then have "(2::nat) ^ ?k \<le> 2 * (n div 2)"
      using k(1) by simp
    then have lo: "2 ^ ?k \<le> n" by linarith
    have "n < 2 * (n div 2) + 2" by linarith
    also have "\<dots> \<le> 2 * 2 ^ ?k" using k(2) by simp
    finally have hi: "n < 2 ^ Suc ?k" by simp
    show ?thesis using lo hi by (simp add: len)
  qed
qed

lemma bit_length_real:
  assumes "0 < n"
  shows "2 powi (int (bit_length n) - 1) \<le> real n \<and> real n < 2 powi int (bit_length n)"
proof -
  have "0 < bit_length n"
    using assms by (subst bit_length.simps) simp
  then obtain k where k: "bit_length n = Suc k"
    by (cases "bit_length n") simp_all
  have "2 ^ k \<le> n" "n < 2 ^ Suc k"
    using bit_length_bounds [OF assms] by (simp_all add: k)
  then have "real (2 ^ k) \<le> real n" "real n < real (2 ^ Suc k)"
    by (simp_all only: of_nat_le_iff of_nat_less_iff)
  moreover have "int (Suc k) - 1 = int k"
    by simp
  ultimately show ?thesis
    by (simp only: k power_int_of_nat of_nat_power of_nat_numeral) 
qed

lemma shifted_value:
  assumes "shifted n d e = (p, q)" and "0 < d"
  shows "0 < q" and "real p / real q = real n / real d / 2 powi e"
proof -
  show "0 < q"
    using assms by (auto simp: shifted_def split: if_splits)
  show "real p / real q = real n / real d / 2 powi e"
  proof (cases "0 \<le> e")
    case True
    then show ?thesis
      using assms by (auto simp: shifted_def power_int_def)
  next
    case False
    then show ?thesis
      using assms by (auto simp: shifted_def power_int_def field_simps)
  qed
qed

lemma nearest_even_close:
  assumes "0 < q"
  shows "\<bar>real (nearest_even p q) - real p / real q\<bar> \<le> 1 / 2"
    and "p div q \<le> nearest_even p q" and "nearest_even p q \<le> p div q + 1"
proof -
  have p: "real p = real q * real (p div q) + real (p mod q)"
    by (metis mult_div_mod_eq of_nat_add of_nat_mult)
  have r: "p mod q < q"
    using assms by simp
  have eq: "real p / real q = real (p div q) + real (p mod q) / real q"
    using assms by (simp add: p field_simps)
  show "\<bar>real (nearest_even p q) - real p / real q\<bar> \<le> 1 / 2"
    using assms r unfolding eq nearest_even_def Let_def
    by (auto simp: field_simps abs_if)
  show "p div q \<le> nearest_even p q" "nearest_even p q \<le> p div q + 1"
    by (simp_all add: nearest_even_def Let_def)
qed


lemma to_double_nearest:
  assumes "0 < n" and "0 < d"
  shows "\<exists>m e. to_double n d = Finite m e \<and> 2 ^ 52 \<le> m \<and> m \<le> 2 ^ 53
           \<and> \<bar>real m * 2 powi e - real n / real d\<bar> \<le> 2 powi e / 2"
proof -
  define x where "x = real n / real d"
  define e0 where "e0 = int (bit_length n) - int (bit_length d) - 53"
  obtain p0 q0 where s0: "shifted n d e0 = (p0, q0)"
    by (cases "shifted n d e0")
  define e where "e = (if 2 ^ 53 * q0 \<le> p0 then e0 + 1 else e0)"
  obtain p q where s: "shifted n d e = (p, q)"
    by (cases "shifted n d e")
  define m where "m = nearest_even p q"
  have "(case shifted n d e0 of (p, q) \<Rightarrow> if 2 ^ 53 * q \<le> p then e0 + 1 else e0) = e"
    by (simp only: s0 e_def prod.case)
  then have "to_double n d = (case shifted n d e of (p, q) \<Rightarrow> Finite (nearest_even p q) e)"
    by (simp only: to_double_def Let_def e0_def [symmetric])
  then have td: "to_double n d = Finite m e"
    by (simp only: s m_def prod.case)
  have q0: "0 < q0" and y0: "real p0 / real q0 = x / 2 powi e0"
    using shifted_value [OF s0 assms(2)] by (simp_all add: x_def)
  have q: "0 < q" and y: "real p / real q = x / 2 powi e"
    using shifted_value [OF s assms(2)] by (simp_all add: x_def)
  have n: "2 powi (int (bit_length n) - 1) \<le> real n" "real n < 2 powi int (bit_length n)"
    using bit_length_real [OF assms(1)] by simp_all
  have d: "2 powi (int (bit_length d) - 1) \<le> real d" "real d < 2 powi int (bit_length d)"
    using bit_length_real [OF assms(2)] by simp_all
  have eq_lo: "2 powi (e0 + 52) * 2 powi int (bit_length d) = (2::real) powi (int (bit_length n) - 1)"
  proof -
    have "e0 + 52 + int (bit_length d) = int (bit_length n) - 1"
      by (simp add: e0_def)
    then have "(2::real) powi (int (bit_length n) - 1) = 2 powi (e0 + 52 + int (bit_length d))"
      by (simp only:)
    also have "\<dots> = 2 powi (e0 + 52) * 2 powi int (bit_length d)"
      by (rule power_int_add) simp
    finally show ?thesis by simp
  qed
  have eq_hi: "2 powi (e0 + 54) * 2 powi (int (bit_length d) - 1) = (2::real) powi int (bit_length n)"
  proof -
    have "e0 + 54 + (int (bit_length d) - 1) = int (bit_length n)"
      by (simp add: e0_def)
    then have "(2::real) powi int (bit_length n) = 2 powi (e0 + 54 + (int (bit_length d) - 1))"
      by (simp only:)
    also have "\<dots> = 2 powi (e0 + 54) * 2 powi (int (bit_length d) - 1)"
      by (rule power_int_add) simp
    finally show ?thesis by simp
  qed
  have xlo: "2 powi (e0 + 52) < x"
  proof -
    have "2 powi (e0 + 52) * real d < 2 powi (e0 + 52) * 2 powi int (bit_length d)"
      using d(2) by simp
    also have "\<dots> \<le> real n"
      unfolding eq_lo by (rule n(1))
    finally show ?thesis
      using assms(2) by (simp add: x_def field_simps)
  qed
  have xhi: "x < 2 powi (e0 + 54)"
  proof -
    have "real n < 2 powi (e0 + 54) * 2 powi (int (bit_length d) - 1)"
      unfolding eq_hi by (rule n(2))
    also have "\<dots> \<le> 2 powi (e0 + 54) * real d"
      using d(1) by simp
    finally show ?thesis
      using assms(2) by (simp add: x_def field_simps)
  qed
  have cond: "2 ^ 53 * q0 \<le> p0 \<longleftrightarrow> 2 powi (e0 + 53) \<le> x"
  proof -
    have "2 ^ 53 * q0 \<le> p0 \<longleftrightarrow> real (2 ^ 53 * q0) \<le> real p0"
      by (simp only: of_nat_le_iff)
    also have "\<dots> \<longleftrightarrow> 2 ^ 53 \<le> real p0 / real q0"
      using q0 by (simp add: field_simps)
    also have "\<dots> \<longleftrightarrow> 2 powi (e0 + 53) \<le> x"
      unfolding y0 by (simp add: power_int_add field_simps)
    finally show ?thesis .
  qed
  have range: "2 powi (e + 52) \<le> x \<and> x < 2 powi (e + 53)"
  proof (cases "2 ^ 53 * q0 \<le> p0")
    case True
    then have "e = e0 + 1" by (simp add: e_def)
    then show ?thesis
      using True cond xhi by (simp add: add.commute add.left_commute)
  next
    case False
    then have "e = e0" by (simp add: e_def)
    then show ?thesis
      using False cond xlo by simp
  qed
  have ylo: "2 ^ 52 \<le> real p / real q" and yhi: "real p / real q < 2 ^ 53"
    using range unfolding y by (simp_all add: power_int_add field_simps)
  have "real (2 ^ 52 * q) \<le> real p"
    using ylo q by (simp add: field_simps)
  then have "2 ^ 52 * q \<le> p"
    by (simp only: of_nat_le_iff)
  then have "2 ^ 52 \<le> p div q"
    using q by (simp add: less_eq_div_iff_mult_less_eq)
  then have mlo: "2 ^ 52 \<le> m"
    using nearest_even_close(2) [OF q, of p] by (simp add: m_def)
  have "real p < real (2 ^ 53 * q)"
    using yhi q by (simp add: field_simps)
  then have "p < 2 ^ 53 * q"
    by (simp only: of_nat_less_iff)
  then have "p div q < 2 ^ 53"
    using q by (simp add: div_less_iff_less_mult)
  then have mhi: "m \<le> 2 ^ 53"
    using nearest_even_close(3) [OF q, of p] by (simp add: m_def)
  have "\<bar>real m * 2 powi e - x\<bar> = 2 powi e * \<bar>real m - real p / real q\<bar>"
    unfolding y by (simp add: abs_mult [symmetric] field_simps)
  also have "\<dots> \<le> 2 powi e * (1 / 2)"
    using nearest_even_close(1) [OF q, of p] by (intro mult_left_mono) (simp_all add: m_def)
  finally have "\<bar>real m * 2 powi e - x\<bar> \<le> 2 powi e / 2"
    by simp
  then show ?thesis
    using td mlo mhi by (auto simp: x_def)
qed

lemma to_double_finite: "\<exists>m e. to_double n d = Finite m e"
  by (simp add: to_double_def Let_def split: prod.splits)

lemma toFixed1_finite: "toFixed1 (Finite m e) \<noteq> ''NaN''"
proof -
  obtain p q where "shifted m 1 (- e) = (p, q)"
    by (cases "shifted m 1 (- e)")
  then have "CHR ''.'' \<in> set (toFixed1 (Finite m e))"
    by (simp add: Let_def)
  moreover have "CHR ''.'' \<notin> set ''NaN''"
    by simp
  ultimately show ?thesis
    by metis
qed

lemma percentage_finite:
  assumes "0 < g"
  shows "\<exists>m e. percentage t g = Finite m e"
proof (cases "t = 0")
  case True
  then show ?thesis
    using assms by (simp add: percentage_def js_div_def)
next
  case False
  obtain m e where "to_double t g = Finite m e"
    using to_double_finite by blast
  then have "percentage t g = js_mul (Finite m e) 100"
    using assms False by (simp add: percentage_def js_div_def)
  then show ?thesis
    using to_double_finite by (auto split: prod.splits)
qed

subsection \<open>The map and the loop\<close>

lemma Map_set_sum:
  fixes f :: "'v \<Rightarrow> nat"
  shows "sum_list (map (\<lambda>e. f (snd e)) (Map_set m k v))
         + (case Map_get m k of None \<Rightarrow> 0 | Some d \<Rightarrow> f d)
       = sum_list (map (\<lambda>e. f (snd e)) m) + f v"
  by (induction m) auto

lemma Map_get_set: "Map_get (Map_set m k v) k' = (if k' = k then Some v else Map_get m k')"
  by (induction m) auto

lemma Map_set_keys:
  "map fst (Map_set m k v) = (if k \<in> set (map fst m) then map fst m else map fst m @ [k])"
  by (induction m) force+

lemma add_record_value:
  "\<exists>v. add_record sc groups r = Map_set groups (classifyCommand (command r)) v
     \<and> count v = group_field count groups (classifyCommand (command r)) + 1
     \<and> totalTokens v = group_field totalTokens groups (classifyCommand (command r)) + estimatedTokens r
     \<and> totalChars v = group_field totalChars groups (classifyCommand (command r)) + outputChars r"
proof -
  let ?g = "classifyCommand (command r)"
  define e0 where "e0 = (case Map_get groups ?g of
      Some d \<Rightarrow> d | None \<Rightarrow> \<lparr>count = 0, totalTokens = 0, totalChars = 0, commands = []\<rparr>)"
  define e3 where "e3 = e0\<lparr>count := count e0 + 1, totalTokens := totalTokens e0 + estimatedTokens r,
      totalChars := totalChars e0 + outputChars r\<rparr>"
  define e4 where "e4 = (if sc \<and> length (commands e3) < 3
      then e3\<lparr>commands := commands e3 @ [shorten 60 (command r)]\<rparr> else e3)"
  have "add_record sc groups r = Map_set groups ?g e4"
    by (simp add: add_record_def Let_def e0_def e3_def e4_def)
  moreover have "count e4 = group_field count groups ?g + 1"
    by (simp add: e4_def e3_def e0_def group_field_def split: option.splits)
  moreover have "totalTokens e4 = group_field totalTokens groups ?g + estimatedTokens r"
    by (simp add: e4_def e3_def e0_def group_field_def split: option.splits)
  moreover have "totalChars e4 = group_field totalChars groups ?g + outputChars r"
    by (simp add: e4_def e3_def e0_def group_field_def split: option.splits)
  ultimately show ?thesis by blast
qed

lemma Map_set_total:
  fixes f :: "GroupData \<Rightarrow> nat"
  assumes "f v = group_field f m k + n"
  shows "sum_list (map (\<lambda>e. f (snd e)) (Map_set m k v)) = sum_list (map (\<lambda>e. f (snd e)) m) + n"
  using Map_set_sum [of f m k v] assms by (simp add: group_field_def)

lemma add_record_tokens:
  "sum_list (map (\<lambda>e. totalTokens (snd e)) (add_record sc groups r))
     = sum_list (map (\<lambda>e. totalTokens (snd e)) groups) + estimatedTokens r"
proof -
  obtain v where "add_record sc groups r = Map_set groups (classifyCommand (command r)) v"
    and "totalTokens v = group_field totalTokens groups (classifyCommand (command r)) + estimatedTokens r"
    using add_record_value by blast
  then show ?thesis by (simp add: Map_set_total)
qed

lemma add_record_chars:
  "sum_list (map (\<lambda>e. totalChars (snd e)) (add_record sc groups r))
     = sum_list (map (\<lambda>e. totalChars (snd e)) groups) + outputChars r"
proof -
  obtain v where "add_record sc groups r = Map_set groups (classifyCommand (command r)) v"
    and "totalChars v = group_field totalChars groups (classifyCommand (command r)) + outputChars r"
    using add_record_value by blast
  then show ?thesis by (simp add: Map_set_total)
qed

lemma add_record_count:
  "sum_list (map (\<lambda>e. count (snd e)) (add_record sc groups r))
     = sum_list (map (\<lambda>e. count (snd e)) groups) + 1"
proof -
  obtain v where "add_record sc groups r = Map_set groups (classifyCommand (command r)) v"
    and "count v = group_field count groups (classifyCommand (command r)) + 1"
    using add_record_value by blast
  then show ?thesis by (simp add: Map_set_total)
qed

lemma add_record_keys:
  "map fst (add_record sc groups r) =
     (if classifyCommand (command r) \<in> set (map fst groups) then map fst groups
      else map fst groups @ [classifyCommand (command r)])"
proof -
  obtain v where "add_record sc groups r = Map_set groups (classifyCommand (command r)) v"
    using add_record_value by blast
  then show ?thesis by (simp only: Map_set_keys)
qed

lemma foldl_add_record_tokens:
  "sum_list (map (\<lambda>e. totalTokens (snd e)) (foldl (add_record sc) groups rs))
     = sum_list (map (\<lambda>e. totalTokens (snd e)) groups) + sum_list (map estimatedTokens rs)"
  by (induction rs arbitrary: groups) (simp_all add: add_record_tokens)

lemma foldl_add_record_chars:
  "sum_list (map (\<lambda>e. totalChars (snd e)) (foldl (add_record sc) groups rs))
     = sum_list (map (\<lambda>e. totalChars (snd e)) groups) + sum_list (map outputChars rs)"
  by (induction rs arbitrary: groups) (simp_all add: add_record_chars)

lemma foldl_add_record_count:
  "sum_list (map (\<lambda>e. count (snd e)) (foldl (add_record sc) groups rs))
     = sum_list (map (\<lambda>e. count (snd e)) groups) + length rs"
  by (induction rs arbitrary: groups) (simp_all add: add_record_count)

lemma foldl_add_record_distinct:
  "distinct (map fst groups) \<Longrightarrow> distinct (map fst (foldl (add_record sc) groups rs))"
  by (induction rs arbitrary: groups) (simp_all add: add_record_keys)

lemma foldl_add_record_keys:
  "map fst (foldl (add_record sc) groups rs) =
     map fst groups @ filter (\<lambda>g. g \<notin> set (map fst groups))
       (encounter_order (map (\<lambda>r. classifyCommand (command r)) rs))"
proof (induction rs arbitrary: groups)
  case Nil
  then show ?case by simp
next
  case (Cons r rs)
  show ?case
  proof (cases "classifyCommand (command r) \<in> set (map fst groups)")
    case True
    then have "map fst (add_record sc groups r) = map fst groups"
      by (simp add: add_record_keys)
    moreover have "filter (\<lambda>g. g \<notin> set (map fst groups)) (filter (\<lambda>y. y \<noteq> classifyCommand (command r)) xs)
        = filter (\<lambda>g. g \<notin> set (map fst groups)) xs" for xs
      using True by (induction xs) auto
    ultimately show ?thesis
      using True by (simp add: Cons.IH)
  next
    case False
    then have "map fst (add_record sc groups r) = map fst groups @ [classifyCommand (command r)]"
      by (simp add: add_record_keys)
    moreover have "filter (\<lambda>g. g \<noteq> classifyCommand (command r) \<and> g \<notin> set (map fst groups)) xs
        = filter (\<lambda>g. g \<notin> set (map fst groups)) (filter (\<lambda>y. y \<noteq> classifyCommand (command r)) xs)" for xs
      by (induction xs) auto
    ultimately show ?thesis
      using False by (simp add: Cons.IH)
  qed
qed

lemma foldl_plus_sum: "foldl (\<lambda>s r. s + f r) a rs = a + sum_list (map f rs)" for a :: nat
  by (induction rs arbitrary: a) simp_all

lemma grand_total_sum: "grand_total rs = sum_list (map estimatedTokens rs)"
  by (simp add: grand_total_def foldl_plus_sum)

subsection \<open>The sort\<close>

lemma sort_insert_sum:
  fixes f :: "'a \<Rightarrow> nat"
  shows "sum_list (map f (sort_insert cmp x ys)) = f x + sum_list (map f ys)"
  by (induction ys) auto

lemma array_sort_sum:
  fixes f :: "'a \<Rightarrow> nat"
  shows "sum_list (map f (array_sort cmp xs)) = sum_list (map f xs)"
  by (induction xs) (auto simp: sort_insert_sum)

lemma sort_insert_set: "set (sort_insert cmp x ys) = insert x (set ys)"
  by (induction ys) auto

lemma array_sort_set: "set (array_sort cmp xs) = set xs"
  by (induction xs) (auto simp: sort_insert_set)

lemma array_sort_distinct: "distinct (map f xs) \<Longrightarrow> distinct (map f (array_sort cmp xs))"
proof (induction xs)
  case Nil
  then show ?case by simp
next
  case (Cons x xs)
  have ins: "\<And>ys. distinct (map f ys) \<Longrightarrow> f x \<notin> f ` set ys \<Longrightarrow> distinct (map f (sort_insert cmp x ys))"
  proof -
    fix ys show "distinct (map f ys) \<Longrightarrow> f x \<notin> f ` set ys \<Longrightarrow> distinct (map f (sort_insert cmp x ys))"
      by (induction ys) (auto simp: sort_insert_set)
  qed
  from Cons show ?case
    by (auto intro!: ins simp: array_sort_set)
qed

lemma sort_insert_filter:
  assumes "\<And>y. P x \<Longrightarrow> P y \<Longrightarrow> cmp x y \<le> 0"
  shows "filter P (sort_insert cmp x ys) = (if P x then x # filter P ys else filter P ys)"
  using assms by (induction ys) auto

lemma array_sort_stable:
  assumes "\<And>x y. P x \<Longrightarrow> P y \<Longrightarrow> cmp x y \<le> 0"
  shows "filter P (array_sort cmp xs) = filter P xs"
  using assms by (induction xs) (simp_all add: sort_insert_filter)

lemma sort_insert_sorted:
  fixes k :: "'a \<Rightarrow> nat"
  assumes "\<And>a b. cmp a b \<le> 0 \<longleftrightarrow> k b \<le> k a"
  shows "sorted_wrt (\<lambda>a b. k b \<le> k a) ys \<Longrightarrow> sorted_wrt (\<lambda>a b. k b \<le> k a) (sort_insert cmp x ys)"
proof (induction ys)
  case Nil
  then show ?case by simp
next
  case (Cons y ys)
  then show ?case
    using assms by (auto simp: sort_insert_set)
qed

lemma array_sort_sorted:
  fixes k :: "'a \<Rightarrow> nat"
  assumes "\<And>a b. cmp a b \<le> 0 \<longleftrightarrow> k b \<le> k a"
  shows "sorted_wrt (\<lambda>a b. k b \<le> k a) (array_sort cmp xs)"
  by (induction xs) (simp_all add: sort_insert_sorted [OF assms])

lemma by_tokens_desc_le: "by_tokens_desc a b \<le> 0 \<longleftrightarrow> totalTokens (snd b) \<le> totalTokens (snd a)"
  by (simp add: by_tokens_desc_def)


subsection \<open>The groups of the summary\<close>

lemma add_record_group_field:
  "group_field count (add_record sc groups r) g =
     group_field count groups g + (if classifyCommand (command r) = g then 1 else 0)"
  "group_field totalTokens (add_record sc groups r) g =
     group_field totalTokens groups g + (if classifyCommand (command r) = g then estimatedTokens r else 0)"
  "group_field totalChars (add_record sc groups r) g =
     group_field totalChars groups g + (if classifyCommand (command r) = g then outputChars r else 0)"
proof -
  obtain v where v: "add_record sc groups r = Map_set groups (classifyCommand (command r)) v"
    "count v = group_field count groups (classifyCommand (command r)) + 1"
    "totalTokens v = group_field totalTokens groups (classifyCommand (command r)) + estimatedTokens r"
    "totalChars v = group_field totalChars groups (classifyCommand (command r)) + outputChars r"
    using add_record_value by blast
  show "group_field count (add_record sc groups r) g =
     group_field count groups g + (if classifyCommand (command r) = g then 1 else 0)"
    using v(2) by (simp add: v(1) group_field_def Map_get_set)
  show "group_field totalTokens (add_record sc groups r) g =
     group_field totalTokens groups g + (if classifyCommand (command r) = g then estimatedTokens r else 0)"
    using v(3) by (simp add: v(1) group_field_def Map_get_set)
  show "group_field totalChars (add_record sc groups r) g =
     group_field totalChars groups g + (if classifyCommand (command r) = g then outputChars r else 0)"
    using v(4) by (simp add: v(1) group_field_def Map_get_set)
qed

lemma foldl_add_record_group_field:
  "group_field count (foldl (add_record sc) groups rs) g =
     group_field count groups g + length (filter (\<lambda>r. classifyCommand (command r) = g) rs)"
  "group_field totalTokens (foldl (add_record sc) groups rs) g =
     group_field totalTokens groups g
       + sum_list (map estimatedTokens (filter (\<lambda>r. classifyCommand (command r) = g) rs))"
  "group_field totalChars (foldl (add_record sc) groups rs) g =
     group_field totalChars groups g
       + sum_list (map outputChars (filter (\<lambda>r. classifyCommand (command r) = g) rs))"
  by (induction rs arbitrary: groups) (simp_all add: add_record_group_field)


lemma Map_get_distinct:
  "distinct (map fst m) \<Longrightarrow> Map_get m k = Some v \<longleftrightarrow> (k, v) \<in> set m"
  by (induction m) (auto simp: rev_image_eqI split: if_splits)

lemma keys_filter_field:
  "distinct (map fst m) \<Longrightarrow>
   map fst (filter (\<lambda>e. f (snd e) = t) m) = filter (\<lambda>g. group_field f m g = t) (map fst m)"
proof (induction m)
  case Nil
  then show ?case by simp
next
  case (Cons e m)
  obtain k v where e: "e = (k, v)" by (cases e)
  from Cons.prems have k: "k \<notin> set (map fst m)" and d: "distinct (map fst m)"
    by (simp_all add: e)
  have "filter (\<lambda>g. group_field f (e # m) g = t) (map fst m) = filter (\<lambda>g. group_field f m g = t) (map fst m)"
    using k by (intro filter_cong) (auto simp: e group_field_def)
  then show ?case
    using Cons.IH [OF d] by (simp add: e group_field_def)
qed

lemma summary_line_sel:
  "line_group (summary_line grand e) = fst e"
  "line_tokens (summary_line grand e) = totalTokens (snd e)"
  "line_calls (summary_line grand e) = count (snd e)"
  "line_chars (summary_line grand e) = totalChars (snd e)"
  by (simp_all add: summary_line_def split: prod.splits)

lemma group_records_keys:
  "map fst (group_records sc rs) = encounter_order (map (\<lambda>r. classifyCommand (command r)) rs)"
  using foldl_add_record_keys [of sc "[]" rs] by (simp add: group_records_def)

lemma group_records_distinct: "distinct (map fst (group_records sc rs))"
  using foldl_add_record_distinct [of "[]" sc rs] by (simp add: group_records_def)

lemma group_records_group_field:
  "group_field totalTokens (group_records sc rs) g =
     sum_list (map estimatedTokens (filter (\<lambda>r. classifyCommand (command r) = g) rs))"
  using foldl_add_record_group_field(2) [of sc "[]" rs g] by (simp add: group_records_def group_field_def)

lemma group_records_fields:
  assumes "e \<in> set (group_records sc rs)"
  shows "totalTokens (snd e) =
           sum_list (map estimatedTokens (filter (\<lambda>r. classifyCommand (command r) = fst e) rs))"
    and "totalChars (snd e) =
           sum_list (map outputChars (filter (\<lambda>r. classifyCommand (command r) = fst e) rs))"
    and "count (snd e) = length (filter (\<lambda>r. classifyCommand (command r) = fst e) rs)"
proof -
  have "Map_get (group_records sc rs) (fst e) = Some (snd e)"
    using assms by (simp add: Map_get_distinct [OF group_records_distinct])
  then have sel: "group_field f (group_records sc rs) (fst e) = f (snd e)" for f
    by (simp add: group_field_def)
  show "totalTokens (snd e) =
           sum_list (map estimatedTokens (filter (\<lambda>r. classifyCommand (command r) = fst e) rs))"
    using foldl_add_record_group_field(2) [of sc "[]" rs "fst e"] sel [of totalTokens]
    by (simp add: group_records_def group_field_def)
  show "totalChars (snd e) =
           sum_list (map outputChars (filter (\<lambda>r. classifyCommand (command r) = fst e) rs))"
    using foldl_add_record_group_field(3) [of sc "[]" rs "fst e"] sel [of totalChars]
    by (simp add: group_records_def group_field_def)
  show "count (snd e) = length (filter (\<lambda>r. classifyCommand (command r) = fst e) rs)"
    using foldl_add_record_group_field(1) [of sc "[]" rs "fst e"] sel [of count]
    by (simp add: group_records_def group_field_def)
qed


subsection \<open>The classifier\<close>

lemma classify_runner_None:
  "classify_runner rs base = None \<longleftrightarrow> list_all (\<lambda>r. \<not> startsWith base (r @ '' '')) rs"
  by (induction rs) (auto split: option.splits)

lemma classify_runner_Some:
  "classify_runner rs base = Some g \<Longrightarrow>
     \<exists>r \<in> set rs. startsWith base (r @ '' '') \<and> (g = r \<or> (\<exists>sub. sub \<noteq> [] \<and> g = r @ '' '' @ sub))"
  by (induction rs) (auto split: option.splits if_splits)

lemma match_patterns_iff: "match_patterns ps base \<longleftrightarrow> list_ex (includes_str base) ps"
  by (induction ps) auto

lemma classify_group_None:
  "classify_group tbl base = None \<longleftrightarrow> list_all (\<lambda>(g, ps). \<not> match_patterns ps base) tbl"
  by (induction tbl) (auto split: if_splits)

lemma classify_group_Some:
  "classify_group tbl base = Some g \<Longrightarrow>
     g \<in> set (map fst tbl) \<and>
     list_all (\<lambda>(g', ps). \<not> match_patterns ps base) (takeWhile (\<lambda>(g', ps). g' \<noteq> g) tbl)"
  by (induction tbl) (auto split: if_splits)

text \<open>\<open>startsWith\<close> and \<open>includes_str\<close> are prefix and substring containment.\<close>

lemma startsWith_append: "startsWith s p \<longleftrightarrow> (\<exists>t. s = p @ t)"
  by (induction s p rule: startsWith.induct) auto

lemma includes_str_iff: "includes_str s p \<longleftrightarrow> (\<exists>a b. s = a @ p @ b)"
proof (induction s)
  case Nil
  then show ?case by (cases p) auto
next
  case (Cons c s)
  show ?case
  proof
    assume "includes_str (c # s) p"
    then consider "startsWith (c # s) p" | "includes_str s p" by auto
    then show "\<exists>a b. c # s = a @ p @ b"
    proof cases
      case 1
      then obtain t where "c # s = p @ t" by (auto simp: startsWith_append)
      then have "c # s = [] @ p @ t" by simp
      then show ?thesis by blast
    next
      case 2
      then obtain a b where "s = a @ p @ b" using Cons.IH by blast
      then have "c # s = (c # a) @ p @ b" by simp
      then show ?thesis by blast
    qed
  next
    assume "\<exists>a b. c # s = a @ p @ b"
    then obtain a b where ab: "c # s = a @ p @ b" by blast
    show "includes_str (c # s) p"
    proof (cases a)
      case Nil
      then have "startsWith (c # s) p" using ab by (auto simp: startsWith_append)
      then show ?thesis by simp
    next
      case (Cons x a')
      then have "s = a' @ p @ b" using ab by simp
      then have "includes_str s p" using Cons.IH by blast
      then show ?thesis by simp
    qed
  qed
qed

lemma runner_not_named:
  assumes "classify_runner RUNNERS base = Some g"
  shows "g \<notin> set (map fst COMMAND_GROUPS) \<and> g \<noteq> ''other''"
  using classify_runner_Some [OF assms]
  by (auto simp: RUNNERS_def COMMAND_GROUPS_def)


subsection \<open>The matcher\<close>

declare rmatch.simps(4,5) [simp del]

lemma rmatch_suffix: "t \<in> set (rmatch r s) \<Longrightarrow> suffix t s"
proof (induction r s arbitrary: t rule: rmatch.induct)
  case (1 s)
  then show ?case by simp
next
  case (2 c s)
  then show ?case by (auto simp: suffix_Cons split: list.splits if_splits)
next
  case (3 p s)
  then show ?case by (auto simp: suffix_Cons split: list.splits if_splits)
next
  case (4 r1 r2 s)
  from "4.prems" obtain u where u: "u \<in> set (rmatch r1 s)" "length u \<le> length s"
      "t \<in> set (rmatch r2 u)"
    by (auto simp: rmatch.simps(4) split: if_splits)
  then have "suffix u s" "suffix t u"
    using "4.IH" by blast+
  then show ?case by (rule suffix_order.trans[rotated])
next
  case (5 r s)
  show ?case
  proof (cases "t = s")
    case True
    then show ?thesis by simp
  next
    case False
    from "5.prems" have "t \<in> set (concat (map (\<lambda>t. if length t < length s
        then rmatch (Star r) t else []) (rmatch r s)) @ [s])"
      by (simp only: rmatch.simps(5) [of r s, symmetric])
    with False obtain u where u: "u \<in> set (rmatch r s)" "length u < length s"
        "t \<in> set (rmatch (Star r) u)"
      by (auto split: if_splits)
    then have "suffix u s" "suffix t u"
      using "5.IH" by blast+
    then show ?thesis by (rule suffix_order.trans[rotated])
  qed
next
  case (6 r s)
  then show ?case by auto
next
  case (7 s)
  then show ?case by (auto split: if_splits)
qed

lemma rmatch_length: "t \<in> set (rmatch r s) \<Longrightarrow> length t \<le> length s"
  by (drule rmatch_suffix) (rule suffix_length_le)

lemma rmatch_Cat: "rmatch (Cat r1 r2) s = concat (map (rmatch r2) (rmatch r1 s))"
proof -
  have "map (\<lambda>t. if length t \<le> length s then rmatch r2 t else []) (rmatch r1 s)
      = map (rmatch r2) (rmatch r1 s)"
    by (rule map_cong) (simp_all add: rmatch_length)
  then show ?thesis by (simp only: rmatch.simps)
qed

lemma rmatch_Star_Class:
  "rmatch (Star (Class p)) [] = [[]]"
  "rmatch (Star (Class p)) (x # xs) = (if p x then rmatch (Star (Class p)) xs @ [x # xs] else [x # xs])"
  by (simp_all add: rmatch.simps(5) [of "Class p"])

lemma rmatch_Plus_Class:
  "rmatch (Plus (Class p)) [] = []"
  "rmatch (Plus (Class p)) (x # xs) = (if p x then rmatch (Star (Class p)) xs else [])"
  by (simp_all add: Plus_def rmatch_Cat)

lemma rmatch_Star_Class_greedy: "\<exists>alts. rmatch (Star (Class p)) s = dropWhile p s # alts"
proof (induction s)
  case Nil
  then show ?case by (simp add: rmatch_Star_Class)
next
  case (Cons x xs)
  then obtain alts where "rmatch (Star (Class p)) xs = dropWhile p xs # alts" by blast
  then show ?case by (simp add: rmatch_Star_Class)
qed

lemma rmatch_Star_Class_set:
  "t \<in> set (rmatch (Star (Class p)) s) \<Longrightarrow> \<exists>u. s = u @ t \<and> list_all p u"
proof (induction s)
  case Nil
  then show ?case by (simp add: rmatch_Star_Class)
next
  case (Cons x xs)
  show ?case
  proof (cases "t = x # xs")
    case True
    then show ?thesis by simp
  next
    case False
    with Cons.prems have px: "p x" and "t \<in> set (rmatch (Star (Class p)) xs)"
      by (auto simp: rmatch_Star_Class(2) split: if_splits)
    then obtain u where "xs = u @ t" "list_all p u" using Cons.IH by blast
    then have "x # xs = (x # u) @ t \<and> list_all p (x # u)" using px by simp
    then show ?thesis by blast
  qed
qed

lemma rmatch_Str: "rmatch (Str p) (p @ s) = [s]"
  by (induction p) (simp_all add: rmatch_Cat)


lemma rmatch_Plus_Class_set:
  assumes "t \<in> set (rmatch (Plus (Class p)) s)"
  shows "\<exists>u. s = u @ t \<and> u \<noteq> [] \<and> list_all p u"
proof (cases s)
  case Nil
  with assms show ?thesis by (simp add: rmatch_Plus_Class)
next
  case (Cons x xs)
  with assms have px: "p x" and "t \<in> set (rmatch (Star (Class p)) xs)"
    by (auto simp: rmatch_Plus_Class split: if_splits)
  then obtain u where "xs = u @ t" "list_all p u"
    using rmatch_Star_Class_set by blast
  then have "s = (x # u) @ t \<and> x # u \<noteq> [] \<and> list_all p (x # u)"
    using px Cons by simp
  then show ?thesis by blast
qed

lemma rmatch_Plus_Class_greedy:
  assumes "p x" and "list_all p xs" and "list_all (\<lambda>c. \<not> p c) (take 1 r)"
  shows "\<exists>alts. rmatch (Plus (Class p)) (x # xs @ r) = r # alts"
proof -
  have "dropWhile p r = r"
    using assms(3) by (cases r) simp_all
  moreover have "dropWhile p (xs @ r) = dropWhile p r"
    using assms(2) by (intro dropWhile_append2) (simp add: list_all_iff)
  ultimately show ?thesis
    using rmatch_Star_Class_greedy [of p "xs @ r"] assms(1) by (simp add: rmatch_Plus_Class)
qed

lemma rmatch_Eoi_after: "concat (map (rmatch Eoi) ts) = filter (\<lambda>t. t = []) ts"
  by (induction ts) simp_all

subsection \<open>Character classes\<close>

lemma pkg_char_not_space: "is_pkg_char c \<Longrightarrow> \<not> is_space c"
  by (auto simp: is_pkg_char_def is_word_def is_space_def code_unit_def Let_def)

lemma version_char_not_space: "is_version_char c \<Longrightarrow> \<not> is_space c"
  by (auto simp: is_version_char_def is_digit_def is_space_def code_unit_def Let_def)

lemma at_sign: "is_pkg_char CHR ''@''" "\<not> is_version_char CHR ''@''" "\<not> is_space CHR ''@''"
  by (simp_all add: is_pkg_char_def is_version_char_def is_digit_def is_space_def code_unit_def)

subsection \<open>Trimming\<close>

lemma trim_keep:
  assumes "A \<noteq> []" and "\<not> is_space (hd A)" and "\<not> is_space (last A)"
  shows "trim (A @ B) = A @ rev (dropWhile is_space (rev B))"
proof -
  have 1: "dropWhile is_space (A @ B) = A @ B"
    using assms(1,2) by (cases A) simp_all
  have 2: "dropWhile is_space (rev A) = rev A"
    using assms(1,3) by (cases "rev A") (simp_all add: last_rev [symmetric] del: last_rev)
  have "rev (dropWhile is_space (rev B @ rev A)) = A @ rev (dropWhile is_space (rev B))"
    by (simp add: dropWhile_append 2)
  then show ?thesis
    by (simp add: trim_def 1)
qed

lemma rstrip_idem:
  "rev (dropWhile is_space (rev (rev (dropWhile is_space (rev B))))) = rev (dropWhile is_space (rev B))"
  by (simp add: dropWhile_idem)

lemma rstrip_take1:
  assumes "list_all P (take 1 B)"
  shows "list_all P (take 1 (rev (dropWhile is_space (rev B))))"
proof -
  have "B = rev (dropWhile is_space (rev B)) @ rev (takeWhile is_space (rev B))"
    by (metis rev_append rev_rev_ident takeWhile_dropWhile_id)
  then obtain C where B: "B = rev (dropWhile is_space (rev B)) @ C" ..
  show ?thesis
  proof (cases "rev (dropWhile is_space (rev B))")
    case Nil
    then have "take 1 (rev (dropWhile is_space (rev B))) = []"
      by (simp only: take_Nil)
    then show ?thesis
      by (simp only: list.pred_inject(1))
  next
    case (Cons d D)
    with B have "B = d # D @ C" by simp
    then have "P d" using assms by (cases B) simp_all
    then show ?thesis by (simp add: Cons)
  qed
qed


subsection \<open>The runner pattern\<close>

lemma dashes_no_match:
  assumes "list_all is_pkg_char name"
  shows "rmatch (Cat (Lit CHR ''-'') (Cat (Lit CHR ''-'') (Plus (Class is_space))))
           (name @ CHR ''@'' # X) = []"
proof (cases name)
  case Nil
  then show ?thesis by (simp add: rmatch_Cat)
next
  case (Cons a name1)
  note a = this
  show ?thesis
  proof (cases name1)
    case Nil
    then show ?thesis by (simp add: a rmatch_Cat)
  next
    case (Cons b name2)
    have "\<not> is_space (hd (name2 @ CHR ''@'' # X))"
      using assms by (cases name2) (simp_all add: a Cons at_sign pkg_char_not_space)
    then have "rmatch (Plus (Class is_space)) (name2 @ CHR ''@'' # X) = []"
      by (cases "name2 @ CHR ''@'' # X") (simp_all add: rmatch_Plus_Class)
    then show ?thesis
      by (simp add: a Cons rmatch_Cat)
  qed
qed

lemma runner_head_match:
  assumes "list_all is_space ws" and "list_all is_pkg_char name"
  shows "\<exists>alts. rmatch (runner_head runner) (runner @ CHR '' '' # ws @ name @ CHR ''@'' # X)
           = (name @ CHR ''@'' # X) # alts"
proof -
  let ?T = "name @ CHR ''@'' # X"
  have "\<not> is_space (hd ?T)"
    using assms(2) by (cases name) (simp_all add: at_sign pkg_char_not_space)
  then have "list_all (\<lambda>c. \<not> is_space c) (take 1 ?T)"
    by (cases ?T) simp_all
  moreover have "is_space CHR '' ''"
    by (simp add: is_space_def code_unit_def)
  ultimately obtain alts where
    sp: "rmatch (Plus (Class is_space)) (CHR '' '' # ws @ ?T) = ?T # alts"
    using rmatch_Plus_Class_greedy [of is_space "CHR '' ''" ws ?T] assms(1) by blast
  have "rmatch (runner_head runner) (runner @ CHR '' '' # ws @ ?T)
      = concat (map (rmatch (Opt (Cat (Lit CHR ''-'') (Cat (Lit CHR ''-'') (Plus (Class is_space))))))
          (rmatch (Plus (Class is_space)) (CHR '' '' # ws @ ?T)))"
    by (simp add: runner_head_def rmatch_Cat rmatch_Str)
  also have "\<dots> = ?T # concat (map (rmatch (Opt (Cat (Lit CHR ''-'') (Cat (Lit CHR ''-'')
      (Plus (Class is_space)))))) alts)"
    by (simp add: sp dashes_no_match [OF assms(2)])
  finally show ?thesis by blast
qed

lemma captures_at_first:
  assumes "rmatch pre s = t # alts" and "rmatch grp t = u # alts1"
  shows "\<exists>rest. captures_at pre grp s = take (length t - length u) t # rest"
  using assms by (simp add: captures_at_def)

lemma token_captured:
  assumes "list_all is_space ws" and "list_all is_pkg_char name" and "list_all is_pkg_char ver"
    and "list_all (\<lambda>c. \<not> is_pkg_char c) (take 1 r)"
  shows "match_capture (runner_head runner) pkg_token
           (runner @ CHR '' '' # ws @ name @ CHR ''@'' # ver @ r) = Some (name @ CHR ''@'' # ver)"
proof -
  let ?tok = "name @ CHR ''@'' # ver"
  let ?s = "runner @ CHR '' '' # ws @ name @ CHR ''@'' # ver @ r"
  obtain alts where pre: "rmatch (runner_head runner) ?s = (?tok @ r) # alts"
    using runner_head_match [OF assms(1,2), of runner "ver @ r"] by auto
  obtain x xs where tok: "?tok = x # xs"
    by (cases ?tok) simp_all
  have all: "list_all is_pkg_char ?tok"
    using assms(2,3) by (simp add: at_sign)
  then have "is_pkg_char x" "list_all is_pkg_char xs"
    by (simp_all add: tok)
  then obtain alts1 where "rmatch (Plus (Class is_pkg_char)) (x # xs @ r) = r # alts1"
    using rmatch_Plus_Class_greedy [of is_pkg_char x xs r] assms(4) by blast
  then have grp: "rmatch pkg_token (?tok @ r) = r # alts1"
    by (simp add: pkg_token_def tok)
  have "\<exists>rest. captures_at (runner_head runner) pkg_token ?s = ?tok # rest"
    using captures_at_first [OF pre grp] by simp
  then obtain rest where cap: "captures_at (runner_head runner) pkg_token ?s = ?tok # rest" ..
  show ?thesis
  proof (cases ?s)
    case Nil
    then show ?thesis by simp
  next
    case (Cons c cs)
    then show ?thesis
      using cap by simp
  qed
qed

lemma version_suffix_at:
  "rmatch version_suffix (CHR ''@'' # s)
     = filter (\<lambda>t. t = []) (rmatch (Plus (Class is_version_char)) s)"
  by (simp add: version_suffix_def rmatch_Cat rmatch_Eoi_after)

lemma version_suffix_other: "c \<noteq> CHR ''@'' \<Longrightarrow> rmatch version_suffix (c # s) = []"
  by (simp add: version_suffix_def rmatch_Cat)

lemma version_stripped:
  assumes "ver \<noteq> []" and "list_all is_version_char ver"
  shows "replace_first version_suffix (name @ CHR ''@'' # ver) = name"
proof (induction name)
  case Nil
  obtain v vs where ver: "ver = v # vs"
    using assms(1) by (cases ver) simp_all
  have "list_all (\<lambda>c. \<not> is_version_char c) (take 1 [])"
    by simp
  then obtain alts where "rmatch (Plus (Class is_version_char)) (v # vs @ []) = [] # alts"
    using rmatch_Plus_Class_greedy [of is_version_char v vs "[]"] assms(2) ver by auto
  then show ?case
    by (simp add: version_suffix_at ver)
next
  case (Cons c name)
  show ?case
  proof (cases "c = CHR ''@''")
    case False
    then show ?thesis
      by (simp add: version_suffix_other Cons.IH)
  next
    case True
    have "t \<noteq> []" if "t \<in> set (rmatch (Plus (Class is_version_char)) (name @ CHR ''@'' # ver))" for t
    proof
      assume "t = []"
      with that obtain u where "name @ CHR ''@'' # ver = u" "list_all is_version_char u"
        using rmatch_Plus_Class_set by fastforce
      then show False
        by (auto simp: at_sign)
    qed
    then have "filter (\<lambda>t. t = []) (rmatch (Plus (Class is_version_char)) (name @ CHR ''@'' # ver)) = []"
      by (auto simp: filter_empty_conv)
    then show ?thesis
      by (simp add: True version_suffix_at Cons.IH)
  qed
qed


subsection \<open>The base command of a runner command\<close>

lemma runner_cases:
  assumes "runner \<in> set RUNNERS"
  obtains "runner = ''npx''" | "runner = ''bunx''" | "runner = ''uvx''"
  using assms by (auto simp: RUNNERS_def)

lemma runner_no_cd_prefix:
  assumes "runner \<in> set RUNNERS"
  shows "replace_at_start cd_prefix (runner @ CHR '' '' # X) = runner @ CHR '' '' # X"
  using assms
  by (rule runner_cases)
     (simp_all add: replace_at_start_def cd_prefix_def cd_clause_def Plus_def rmatch_Cat)

lemma rmatch_Plus_fail: "rmatch r s = [] \<Longrightarrow> rmatch (Plus r) s = []"
  by (simp add: Plus_def rmatch_Cat)

lemma runner_no_env_prefix:
  assumes "runner \<in> set RUNNERS"
  shows "replace_at_start env_prefix (runner @ CHR '' '' # X) = runner @ CHR '' '' # X"
proof -
  have "rmatch env_clause (runner @ CHR '' '' # X) = []"
    using assms
    by (rule runner_cases)
       (simp_all add: env_clause_def rmatch_Cat rmatch_Plus_Class rmatch_Star_Class
          is_word_def code_unit_def)
  then show ?thesis
    by (simp add: replace_at_start_def env_prefix_def rmatch_Plus_fail)
qed

lemma runner_base:
  assumes "runner \<in> set RUNNERS" and "\<not> is_space (last (CHR '' '' # Y))"
  shows "extractBaseCommand (runner @ CHR '' '' # Y @ B)
           = runner @ CHR '' '' # Y @ rev (dropWhile is_space (rev B))"
proof -
  let ?A = "runner @ CHR '' '' # Y"
  have A: "?A \<noteq> []" "\<not> is_space (last ?A)"
    using assms(2) by simp_all
  have hd: "\<not> is_space (hd ?A)"
    using assms(1) by (rule runner_cases) (simp_all add: is_space_def code_unit_def)
  have 1: "trim (runner @ CHR '' '' # Y @ B) = runner @ CHR '' '' # Y @ rev (dropWhile is_space (rev B))"
    for B
    using trim_keep [OF A(1) hd A(2), of B] by simp
  have 2: "replace_at_start env_prefix (replace_at_start cd_prefix (runner @ CHR '' '' # Z))
      = runner @ CHR '' '' # Z" for Z
    by (simp only: runner_no_cd_prefix [OF assms(1)] runner_no_env_prefix [OF assms(1)])
  have "extractBaseCommand (runner @ CHR '' '' # Y @ B)
      = trim (runner @ CHR '' '' # Y @ rev (dropWhile is_space (rev B)))"
    by (simp only: extractBaseCommand_def Let_def 1 2)
  also have "\<dots> = runner @ CHR '' '' # Y @ rev (dropWhile is_space (rev B))"
    by (simp only: 1 rstrip_idem)
  finally show ?thesis .
qed

lemma classify_runner_at:
  assumes "runner \<in> set RUNNERS"
  shows "classify_runner RUNNERS (runner @ CHR '' '' # X) =
    Some (case extractRunnerCommand (runner @ CHR '' '' # X) runner of
            None \<Rightarrow> runner
          | Some sub \<Rightarrow> if sub \<noteq> [] then runner @ '' '' @ sub else runner)"
  using assms
  by (rule runner_cases) (simp_all add: RUNNERS_def split: option.splits)

text \<open>
  What the code does strip: the suffix of a matched token, and so the version of
  digits and dots of a name of token characters that follows a runner.
\<close>

lemma version_suffix_stripped_token:
  assumes "runner \<in> set RUNNERS" and "startsWith (extractBaseCommand c) (runner @ '' '')"
    and "match_capture (runner_head runner) pkg_token (extractBaseCommand c)
           = Some (name @ ''@'' @ ver)"
    and "ver \<noteq> []" and "list_all is_version_char ver"
  shows "extractRunnerCommand (extractBaseCommand c) runner = Some name"
    and "classifyCommand c = (if name = [] then runner else runner @ '' '' @ name)"
proof -
  show sub: "extractRunnerCommand (extractBaseCommand c) runner = Some name"
    using assms(3) version_stripped [OF assms(4,5), of name]
    by (simp add: extractRunnerCommand_def)
  obtain X where "extractBaseCommand c = runner @ CHR '' '' # X"
    using assms(2) by (auto simp: startsWith_append)
  then show "classifyCommand c = (if name = [] then runner else runner @ '' '' @ name)"
    using classify_runner_at [OF assms(1), of X] sub
    by (simp add: classifyCommand_def)
qed

lemma version_suffix_stripped_command:
  assumes "runner \<in> set RUNNERS" and "list_all is_space ws" and "list_all is_pkg_char name"
    and "ver \<noteq> []" and "list_all (\<lambda>c. is_version_char c \<and> is_pkg_char c) ver"
    and "list_all (\<lambda>c. \<not> is_pkg_char c) (take 1 rest)"
  shows "classifyCommand (runner @ '' '' @ ws @ name @ ''@'' @ ver @ rest)
           = (if name = [] then runner else runner @ '' '' @ name)"
proof -
  define c where "c = runner @ CHR '' '' # (ws @ name @ CHR ''@'' # ver) @ rest"
  define r where "r = rev (dropWhile is_space (rev rest))"
  have ver: "list_all is_version_char ver" "list_all is_pkg_char ver"
    using assms(5) by (simp_all add: list_all_iff)
  have "\<not> is_space (last ver)"
    using assms(4) ver(1) by (simp add: list_all_iff version_char_not_space)
  then have "\<not> is_space (last (CHR '' '' # ws @ name @ CHR ''@'' # ver))"
    using assms(4) by simp
  then have "extractBaseCommand c = runner @ CHR '' '' # (ws @ name @ CHR ''@'' # ver) @ r"
    unfolding c_def r_def by (rule runner_base [OF assms(1)])
  then have base: "extractBaseCommand c = runner @ CHR '' '' # ws @ name @ CHR ''@'' # ver @ r"
    by simp
  have "list_all (\<lambda>c. \<not> is_pkg_char c) (take 1 r)"
    unfolding r_def using assms(6) by (rule rstrip_take1)
  then have "match_capture (runner_head runner) pkg_token (extractBaseCommand c)
      = Some (name @ CHR ''@'' # ver)"
    unfolding base by (rule token_captured [OF assms(2,3) ver(2)])
  then have cap: "match_capture (runner_head runner) pkg_token (extractBaseCommand c)
      = Some (name @ ''@'' @ ver)"
    by simp
  have "startsWith (extractBaseCommand c) (runner @ '' '')"
    by (simp add: base startsWith_append)
  then have "classifyCommand c = (if name = [] then runner else runner @ '' '' @ name)"
    using cap by (rule version_suffix_stripped_token(2) [OF assms(1) _ _ assms(4) ver(1)])
  then show ?thesis
    by (simp add: c_def)
qed


section \<open>Evaluations\<close>

lemma classify_examples:
  "classifyCommand ''git status'' = ''git''"
  "classifyCommand ''pytest -v'' = ''pytest''"
  "classifyCommand ''echo hi'' = ''other''"
  "classifyCommand ''true'' = ''other''"
  "classifyCommand ''npm run build'' = ''npm run''"
  "classifyCommand ''npm install'' = ''npm install''"
  "classifyCommand ''npm ci --silent'' = ''npm install''"
  "classifyCommand ''npm config set x y'' = ''npm''"
  "classifyCommand ''pnpm init'' = ''npm install''"
  "classifyCommand [] = ''other''"
  by code_simp+

lemma pct_examples:
  "toFixed1 (percentage 500 512) = ''97.7''"
  "toFixed1 (percentage 10 512) = ''2.0''"
  "toFixed1 (percentage 2 512) = ''0.4''"
  "toFixed1 (percentage (Suc (Suc 0)) 512) = ''0.4''"
  "toFixed1 (percentage 125 500) = ''25.0''"
  "toFixed1 (percentage 23 80) = ''28.7''"
  "toFixed1 (percentage 41 80) = ''51.2''"
  by (simp_all add: percentage_def js_div_def to_double_def shifted_def nearest_even_def
      Let_def bit_length.simps)

lemma pirs_empty: "pirs args [] = NoData"
  by (simp add: pirs_def)

lemma pirs_nonempty: "rs \<noteq> [] \<Longrightarrow> pirs args rs \<noteq> NoData"
  by (simp add: pirs_def Let_def)

lemma pirs_default:
  "rs \<noteq> [] \<Longrightarrow> pirs None rs = Summary False (summary_lines False rs) (length rs) (grand_total rs)"
  by (simp add: pirs_def)


section \<open>Properties of the specification\<close>

text \<open>
  C1, as the code has it. The handler answers "no data" exactly when no record has
  been made, before anything is aggregated; a sequence that is not empty is
  aggregated into a summary also when every record has \<open>outputChars = 0\<close> and the
  grand total is zero. When the grand total is positive (and a count below
  \<open>2 ^ 53\<close>) the percentage of a part of it is a finite number, and no line of
  the summary prints \<open>NaN\<close>.
\<close>

theorem no_data_iff_no_records:
  "(pirs args rs = NoData \<longleftrightarrow> rs = [])
   \<and> (rs \<noteq> [] \<longrightarrow>
        pirs None rs = Summary False (summary_lines False rs) (length rs) (grand_total rs))
   \<and> (0 < grand_total rs \<and> grand_total rs < 2 ^ 53 \<and> t \<le> grand_total rs \<longrightarrow>
        percentage t (grand_total rs) \<noteq> NaN
        \<and> percentage t (grand_total rs) \<noteq> Infinity
        \<and> list_all (\<lambda>l. line_pct l \<noteq> ''NaN'') (summary_lines sc rs))"
proof (intro conjI impI)
  show "pirs args rs = NoData \<longleftrightarrow> rs = []"
    using pirs_empty [of args] pirs_nonempty [of rs args] by blast
  show "pirs None rs = Summary False (summary_lines False rs) (length rs) (grand_total rs)"
    if "rs \<noteq> []"
    using that by (rule pirs_default)
  assume "0 < grand_total rs \<and> grand_total rs < 2 ^ 53 \<and> t \<le> grand_total rs"
  then have pos: "0 < grand_total rs"
    by simp
  show "percentage t (grand_total rs) \<noteq> NaN" "percentage t (grand_total rs) \<noteq> Infinity"
    using percentage_finite [OF pos, of t] by auto
  show "list_all (\<lambda>l. line_pct l \<noteq> ''NaN'') (summary_lines sc rs)"
    unfolding list_all_iff
  proof
    fix l
    assume "l \<in> set (summary_lines sc rs)"
    then obtain e where "l = summary_line (grand_total rs) e"
      by (auto simp: summary_lines_def)
    then have "line_pct l = toFixed1 (percentage (totalTokens (snd e)) (grand_total rs))"
      by (simp add: summary_line_def split: prod.splits)
    then show "line_pct l \<noteq> ''NaN''"
      using percentage_finite [OF pos, of "totalTokens (snd e)"] toFixed1_finite by auto
  qed
qed

theorem no_data_iff_no_records_witness:
  "pirs None [new_record 0 ''pytest -v'' [2000] False False] \<noteq> NoData
   \<and> pirs None [new_record 0 ''pytest -v'' [2000] False False]
       = Summary False (summary_lines False [new_record 0 ''pytest -v'' [2000] False False]) 1 500
   \<and> percentage 125 500 \<noteq> NaN
   \<and> list_all (\<lambda>l. line_pct l \<noteq> ''NaN'')
        (summary_lines False [new_record 0 ''pytest -v'' [2000] False False])"
proof -
  let ?rs = "[new_record 0 ''pytest -v'' [2000] False False]"
  have g: "grand_total ?rs = 500"
    by (simp add: grand_total_def new_record_def estimateTokens_div)
  have ne: "?rs \<noteq> []"
    and pos: "0 < grand_total ?rs \<and> grand_total ?rs < 2 ^ 53 \<and> 125 \<le> grand_total ?rs"
    by (simp_all add: g)
  from no_data_iff_no_records [of None ?rs 125 False] ne pos
  have "pirs None ?rs \<noteq> NoData"
    and "pirs None ?rs = Summary False (summary_lines False ?rs) (length ?rs) (grand_total ?rs)"
    and "percentage 125 (grand_total ?rs) \<noteq> NaN"
    and "list_all (\<lambda>l. line_pct l \<noteq> ''NaN'') (summary_lines False ?rs)"
    by blast+
  then show ?thesis
    by (simp add: g)
qed

text \<open>
  C1 as it is stated fails: one record of a command that printed nothing has grand
  total zero, yet the handler does not answer "no data"; it aggregates, and the
  percentage it prints is \<open>NaN\<close>.
\<close>

theorem zero_total_is_aggregated:
  "grand_total [new_record 0 ''true'' [] False False] = 0
   \<and> outputChars (new_record 0 ''true'' [] False False) = 0
   \<and> pirs None [new_record 0 ''true'' [] False False] =
       Summary False
         [\<lparr>line_group = ''other'', line_tokens = 0, line_pct = ''NaN'', line_calls = 1,
           line_chars = 0, line_commands = []\<rparr>] 1 0
   \<and> pirs None [new_record 0 ''true'' [] False False] \<noteq> NoData"
  by (simp add: new_record_def estimateTokens_div grand_total_def pirs_def summary_lines_def
      sorted_groups_def group_records_def add_record_def summary_line_def percentage_def
      js_div_def classify_examples)

text \<open>
  C2, at an input where the code departs from it: of \<^verbatim>\<open>cd a && cd b && ls\<close> only
  \<^verbatim>\<open>cd a &\<close> is removed, since the pattern takes one delimiter character and the
  next clause would have to start at the second \<^verbatim>\<open>&\<close>. With \<^verbatim>\<open>;\<close> or a single
  \<^verbatim>\<open>&\<close> between the clauses the whole chain is removed.
\<close>

theorem cd_chain_with_double_ampersand:
  "extractBaseCommand ''cd a && cd b && ls'' = ''& cd b && ls''
   \<and> extractBaseCommand ''cd /tmp && pytest tests/'' = ''& pytest tests/''
   \<and> extractBaseCommand ''cd a; cd b; ls'' = ''ls''
   \<and> extractBaseCommand ''cd a & cd b & ls'' = ''ls''"
  by code_simp

text \<open>
  C3. The three records of the scenario, whatever their time stamps and flags, are
  classified \<open>git\<close>, \<open>pytest\<close> and \<open>other\<close>, with 10, 500 and 2 tokens and a grand
  total of 512, and the summary lists \<open>pytest\<close> (500, 97.7), \<open>git\<close> (10, 2.0) and
  \<open>other\<close> (2, 0.4), in this order.
\<close>

theorem end_to_end_scenario:
  fixes t1 t2 t3 :: nat and tr1 tr2 tr3 e1 e2 e3 :: bool
  defines "rs \<equiv> [new_record t1 ''git status'' [40] tr1 e1,
                   new_record t2 ''pytest -v'' [2000] tr2 e2,
                   new_record t3 ''echo hi'' [8] tr3 e3]"
  shows "map (\<lambda>r. classifyCommand (command r)) rs = [''git'', ''pytest'', ''other'']
     \<and> map outputChars rs = [40, 2000, 8]
     \<and> map estimatedTokens rs = [10, 500, 2]
     \<and> grand_total rs = 512
     \<and> pirs None rs = Summary False
          [\<lparr>line_group = ''pytest'', line_tokens = 500, line_pct = ''97.7'', line_calls = 1,
            line_chars = 2000, line_commands = []\<rparr>,
           \<lparr>line_group = ''git'', line_tokens = 10, line_pct = ''2.0'', line_calls = 1,
            line_chars = 40, line_commands = []\<rparr>,
           \<lparr>line_group = ''other'', line_tokens = 2, line_pct = ''0.4'', line_calls = 1,
            line_chars = 8, line_commands = []\<rparr>] 3 512"
  by (simp add: rs_def new_record_def estimateTokens_div grand_total_def pirs_def
      summary_lines_def sorted_groups_def group_records_def add_record_def summary_line_def
      by_tokens_desc_def pct_examples classify_examples)


text \<open>
  C4. The lines of the summary conserve the totals: their tokens add up to the sum
  of the records' \<open>estimatedTokens\<close> (the grand total the handler computes), their
  characters to the sum of \<open>outputChars\<close>, their calls to the number of records.
  No group has two lines, the groups are those of the records, and each line holds
  the tokens, characters and number of the records classified into its group.
\<close>

theorem grouped_summary_conserves_totals:
  "sum_list (map line_tokens (summary_lines sc rs)) = sum_list (map estimatedTokens rs)
   \<and> grand_total rs = sum_list (map estimatedTokens rs)
   \<and> sum_list (map line_chars (summary_lines sc rs)) = sum_list (map outputChars rs)
   \<and> sum_list (map line_calls (summary_lines sc rs)) = length rs
   \<and> distinct (map line_group (summary_lines sc rs))
   \<and> set (map line_group (summary_lines sc rs)) = set (map (\<lambda>r. classifyCommand (command r)) rs)
   \<and> list_all (\<lambda>l.
         line_tokens l = sum_list (map estimatedTokens
            (filter (\<lambda>r. classifyCommand (command r) = line_group l) rs))
       \<and> line_chars l = sum_list (map outputChars
            (filter (\<lambda>r. classifyCommand (command r) = line_group l) rs))
       \<and> line_calls l = length (filter (\<lambda>r. classifyCommand (command r) = line_group l) rs))
       (summary_lines sc rs)"
proof (intro conjI)
  have lines: "map f (summary_lines sc rs) = map (\<lambda>e. f (summary_line (grand_total rs) e))
      (array_sort by_tokens_desc (group_records sc rs))" for f :: "SummaryLine \<Rightarrow> 'b"
    by (simp add: summary_lines_def sorted_groups_def)
  show "sum_list (map line_tokens (summary_lines sc rs)) = sum_list (map estimatedTokens rs)"
    using foldl_add_record_tokens [of sc "[]" rs]
    by (simp add: lines summary_line_sel array_sort_sum group_records_def)
  show "grand_total rs = sum_list (map estimatedTokens rs)"
    by (rule grand_total_sum)
  show "sum_list (map line_chars (summary_lines sc rs)) = sum_list (map outputChars rs)"
    using foldl_add_record_chars [of sc "[]" rs]
    by (simp add: lines summary_line_sel array_sort_sum group_records_def)
  show "sum_list (map line_calls (summary_lines sc rs)) = length rs"
    using foldl_add_record_count [of sc "[]" rs]
    by (simp add: lines summary_line_sel array_sort_sum group_records_def)
  show "distinct (map line_group (summary_lines sc rs))"
    using array_sort_distinct [OF group_records_distinct, of by_tokens_desc sc rs]
    by (simp add: lines summary_line_sel)
  have "set (map line_group (summary_lines sc rs)) = set (map fst (group_records sc rs))"
    by (simp add: lines summary_line_sel array_sort_set del: set_map) (simp add: array_sort_set)
  also have "\<dots> = set (encounter_order (map (\<lambda>r. classifyCommand (command r)) rs))"
    by (simp only: group_records_keys)
  also have "\<dots> = set (map (\<lambda>r. classifyCommand (command r)) rs)"
  proof -
    have "set (encounter_order xs) = set xs" for xs :: "string list"
      by (induction xs) auto
    then show ?thesis .
  qed
  finally show "set (map line_group (summary_lines sc rs)) = set (map (\<lambda>r. classifyCommand (command r)) rs)" .
  show "list_all (\<lambda>l.
         line_tokens l = sum_list (map estimatedTokens
            (filter (\<lambda>r. classifyCommand (command r) = line_group l) rs))
       \<and> line_chars l = sum_list (map outputChars
            (filter (\<lambda>r. classifyCommand (command r) = line_group l) rs))
       \<and> line_calls l = length (filter (\<lambda>r. classifyCommand (command r) = line_group l) rs))
       (summary_lines sc rs)"
    unfolding list_all_iff
  proof
    fix l assume "l \<in> set (summary_lines sc rs)"
    then obtain e where e: "e \<in> set (group_records sc rs)" and l: "l = summary_line (grand_total rs) e"
      by (auto simp: summary_lines_def sorted_groups_def array_sort_set)
    show "line_tokens l = sum_list (map estimatedTokens
            (filter (\<lambda>r. classifyCommand (command r) = line_group l) rs))
       \<and> line_chars l = sum_list (map outputChars
            (filter (\<lambda>r. classifyCommand (command r) = line_group l) rs))
       \<and> line_calls l = length (filter (\<lambda>r. classifyCommand (command r) = line_group l) rs)"
      using group_records_fields [OF e] by (simp add: l summary_line_sel)
  qed
qed


text \<open>
  C5. The lines of the summary are in descending order of tokens, and the groups
  that have \<open>t\<close> tokens stand in the order in which their first records were met.
\<close>

theorem summary_sorted_stable:
  "sorted_wrt (\<lambda>a b. line_tokens b \<le> line_tokens a) (summary_lines sc rs)
   \<and> map line_group (filter (\<lambda>l. line_tokens l = t) (summary_lines sc rs))
       = filter (\<lambda>g. sum_list (map estimatedTokens
                   (filter (\<lambda>r. classifyCommand (command r) = g) rs)) = t)
           (encounter_order (map (\<lambda>r. classifyCommand (command r)) rs))"
proof
  have "sorted_wrt (\<lambda>a b. totalTokens (snd b) \<le> totalTokens (snd a)) (sorted_groups sc rs)"
    unfolding sorted_groups_def by (rule array_sort_sorted) (rule by_tokens_desc_le)
  then show "sorted_wrt (\<lambda>a b. line_tokens b \<le> line_tokens a) (summary_lines sc rs)"
    by (simp add: summary_lines_def sorted_wrt_map summary_line_sel)
next
  have "map line_group (filter (\<lambda>l. line_tokens l = t) (summary_lines sc rs))
      = map fst (filter (\<lambda>e. totalTokens (snd e) = t) (sorted_groups sc rs))"
    by (simp add: summary_lines_def filter_map comp_def summary_line_sel)
  also have "\<dots> = map fst (filter (\<lambda>e. totalTokens (snd e) = t) (group_records sc rs))"
    unfolding sorted_groups_def
    by (subst array_sort_stable) (simp_all add: by_tokens_desc_def)
  also have "\<dots> = filter (\<lambda>g. group_field totalTokens (group_records sc rs) g = t)
      (map fst (group_records sc rs))"
    by (rule keys_filter_field) (rule group_records_distinct)
  finally show "map line_group (filter (\<lambda>l. line_tokens l = t) (summary_lines sc rs))
       = filter (\<lambda>g. sum_list (map estimatedTokens
                   (filter (\<lambda>r. classifyCommand (command r) = g) rs)) = t)
           (encounter_order (map (\<lambda>r. classifyCommand (command r)) rs))"
    by (simp add: group_records_keys group_records_group_field)
qed


text \<open>
  C6. The four commands are classified as the specification says, and the group
  \<open>npm\<close> is the answer only for a base command that starts with no runner and
  contains no pattern of an entry listed before \<open>npm\<close>; \<open>npm install\<close> and
  \<open>npm run\<close> are the last two of these.
\<close>

theorem npm_specific_before_generic:
  "classifyCommand ''npm run build'' = ''npm run''
   \<and> classifyCommand ''npm install'' = ''npm install''
   \<and> classifyCommand ''npm ci --silent'' = ''npm install''
   \<and> classifyCommand ''npm config set x y'' = ''npm''
   \<and> map fst (takeWhile (\<lambda>(g, ps). g \<noteq> ''npm'') COMMAND_GROUPS)
        = [''pytest'', ''vitest'', ''jest'', ''tsc'', ''eslint'', ''npm install'', ''npm run'']
   \<and> (classifyCommand c = ''npm'' \<longrightarrow>
        classify_runner RUNNERS (extractBaseCommand c) = None
        \<and> list_all (\<lambda>(g, ps). \<not> match_patterns ps (extractBaseCommand c))
             (takeWhile (\<lambda>(g, ps). g \<noteq> ''npm'') COMMAND_GROUPS))"
proof (intro conjI impI)
  show "map fst (takeWhile (\<lambda>(g, ps). g \<noteq> ''npm'') COMMAND_GROUPS)
        = [''pytest'', ''vitest'', ''jest'', ''tsc'', ''eslint'', ''npm install'', ''npm run'']"
    by (simp add: COMMAND_GROUPS_def)
next
  assume npm: "classifyCommand c = ''npm''"
  let ?base = "extractBaseCommand c"
  show r: "classify_runner RUNNERS ?base = None"
  proof (cases "classify_runner RUNNERS ?base")
    case None
    then show ?thesis .
  next
    case (Some g)
    then have "classifyCommand c = g"
      by (simp add: classifyCommand_def)
    moreover have "g \<notin> set (map fst COMMAND_GROUPS)"
      using runner_not_named [OF Some] by simp
    ultimately show ?thesis
      using npm by (simp add: COMMAND_GROUPS_def)
  qed
  then have "classify_group COMMAND_GROUPS ?base = Some ''npm''"
    using npm by (auto simp: classifyCommand_def split: option.splits)
  then show "list_all (\<lambda>(g, ps). \<not> match_patterns ps ?base)
       (takeWhile (\<lambda>(g, ps). g \<noteq> ''npm'') COMMAND_GROUPS)"
    using classify_group_Some by blast
qed (rule classify_examples)+

theorem npm_specific_before_generic_witness:
  "classifyCommand ''npm config set x y'' = ''npm''
   \<and> \<not> match_patterns [''npm install'', ''npm ci'', ''pnpm install'', ''pnpm i'', ''bun install'',
          ''bun add''] (extractBaseCommand ''npm config set x y'')
   \<and> \<not> match_patterns [''npm run'', ''pnpm run'', ''pnpm exec'', ''bun run'']
          (extractBaseCommand ''npm config set x y'')"
proof -
  have "classifyCommand ''npm config set x y'' = ''npm''"
    by (rule classify_examples)
  with npm_specific_before_generic [of "''npm config set x y''"]
  have "list_all (\<lambda>(g, ps). \<not> match_patterns ps (extractBaseCommand ''npm config set x y''))
          (takeWhile (\<lambda>(g, ps). g \<noteq> ''npm'') COMMAND_GROUPS)"
    by blast
  then have "\<not> match_patterns [''npm install'', ''npm ci'', ''pnpm install'', ''pnpm i'',
          ''bun install'', ''bun add''] (extractBaseCommand ''npm config set x y'')"
    and "\<not> match_patterns [''npm run'', ''pnpm run'', ''pnpm exec'', ''bun run'']
          (extractBaseCommand ''npm config set x y'')"
    by (simp_all add: COMMAND_GROUPS_def)
  then show ?thesis
    by (simp add: classify_examples)
qed


text \<open>
  C7, at an input where the code departs from it. In \<^verbatim>\<open>npx foo@^1.2\<close> the group
  of the runner pattern stops before \<^verbatim>\<open>^\<close>, which is not a token character: the
  token is \<^verbatim>\<open>foo@\<close>, no version character follows its \<^verbatim>\<open>@\<close>, and nothing is
  stripped, although the version pattern lists \<^verbatim>\<open>^\<close> and would strip the suffix
  of \<^verbatim>\<open>foo@^1.2\<close>. The same holds for the other version characters that are no
  token characters. A version of digits and dots is stripped.
\<close>

theorem version_suffix_with_caret_kept:
  "classifyCommand ''npx foo@^1.2'' = ''npx foo@''
   \<and> match_capture (runner_head ''npx'') pkg_token (extractBaseCommand ''npx foo@^1.2'')
       = Some ''foo@''
   \<and> extractRunnerCommand (extractBaseCommand ''npx foo@^1.2'') ''npx'' = Some ''foo@''
   \<and> replace_first version_suffix ''foo@^1.2'' = ''foo''
   \<and> classifyCommand ''npx foo@~2'' = ''npx foo@''
   \<and> classifyCommand ''npx foo@>=1.0.0 run'' = ''npx foo@''
   \<and> classifyCommand ''bunx @scope/tool@* build'' = ''bunx @scope/tool@''
   \<and> classifyCommand ''npx foo@1.2'' = ''npx foo''
   \<and> classifyCommand ''npx @scope/tool@1.2.3 build'' = ''npx @scope/tool''"
  by code_simp

text \<open>
  C8. \<open>classifyCommand\<close> is a function on all strings, so each command has one
  category. The category is \<open>other\<close> exactly when the base command starts with no
  runner and contains no pattern of the table; otherwise it is a group of the table,
  a runner, or a runner with a subcommand. The empty command is \<open>other\<close>.
\<close>

theorem classify_total:
  "(\<exists>!g. classifyCommand c = g)
   \<and> (classifyCommand c = ''other'' \<longleftrightarrow>
        list_all (\<lambda>r. \<not> startsWith (extractBaseCommand c) (r @ '' '')) RUNNERS
        \<and> list_all (\<lambda>(g, ps). \<not> match_patterns ps (extractBaseCommand c)) COMMAND_GROUPS)
   \<and> (classifyCommand c = ''other''
        \<or> classifyCommand c \<in> set (map fst COMMAND_GROUPS)
        \<or> (\<exists>r sub. r \<in> set RUNNERS
              \<and> (classifyCommand c = r \<or> sub \<noteq> [] \<and> classifyCommand c = r @ '' '' @ sub)))
   \<and> classifyCommand [] = ''other''"
proof (intro conjI)
  let ?base = "extractBaseCommand c"
  show "\<exists>!g. classifyCommand c = g"
    by simp
  show "classifyCommand [] = ''other''"
    by (rule classify_examples)
  show "classifyCommand c = ''other'' \<longleftrightarrow>
        list_all (\<lambda>r. \<not> startsWith ?base (r @ '' '')) RUNNERS
        \<and> list_all (\<lambda>(g, ps). \<not> match_patterns ps ?base) COMMAND_GROUPS"
  proof (cases "classify_runner RUNNERS ?base")
    case None
    note r = this
    show ?thesis
    proof (cases "classify_group COMMAND_GROUPS ?base")
      case None
      have "classifyCommand c = ''other''"
        using r None by (simp add: classifyCommand_def)
      moreover have "list_all (\<lambda>r. \<not> startsWith ?base (r @ '' '')) RUNNERS"
        using r by (simp only: classify_runner_None)
      moreover have "list_all (\<lambda>(g, ps). \<not> match_patterns ps ?base) COMMAND_GROUPS"
        using None by (simp only: classify_group_None)
      ultimately show ?thesis
        by simp
    next
      case (Some g)
      then have "g \<in> set (map fst COMMAND_GROUPS)"
        using classify_group_Some by blast
      then have "g \<noteq> ''other''"
        by (auto simp: COMMAND_GROUPS_def)
      moreover have "\<not> list_all (\<lambda>(g, ps). \<not> match_patterns ps ?base) COMMAND_GROUPS"
        using Some classify_group_None [of COMMAND_GROUPS ?base] by simp
      ultimately show ?thesis
        using r Some by (simp add: classifyCommand_def)
    qed
  next
    case (Some g)
    then have "g \<noteq> ''other''"
      using runner_not_named by blast
    moreover have "\<not> list_all (\<lambda>r. \<not> startsWith ?base (r @ '' '')) RUNNERS"
      using Some classify_runner_None [of RUNNERS ?base] by simp
    ultimately show ?thesis
      using Some by (simp add: classifyCommand_def)
  qed
  show "classifyCommand c = ''other''
        \<or> classifyCommand c \<in> set (map fst COMMAND_GROUPS)
        \<or> (\<exists>r sub. r \<in> set RUNNERS
              \<and> (classifyCommand c = r \<or> sub \<noteq> [] \<and> classifyCommand c = r @ '' '' @ sub))"
  proof (cases "classify_runner RUNNERS ?base")
    case None
    note r = this
    show ?thesis
    proof (cases "classify_group COMMAND_GROUPS ?base")
      case None
      then show ?thesis
        using r by (simp add: classifyCommand_def)
    next
      case (Some g)
      then have "g \<in> set (map fst COMMAND_GROUPS)"
        using classify_group_Some by blast
      then show ?thesis
        using r Some by (simp add: classifyCommand_def)
    qed
  next
    case (Some g)
    then have "classifyCommand c = g"
      by (simp add: classifyCommand_def)
    then show ?thesis
      using classify_runner_Some [OF Some] by blast
  qed
qed

theorem classify_total_witness:
  "classifyCommand ''   '' = ''other'' \<and> classifyCommand ''cd'' = ''other''
   \<and> classifyCommand ''=== && ;; \"'' = ''other''"
proof -
  have 1: "list_all (\<lambda>r. \<not> startsWith (extractBaseCommand ''   '') (r @ '' '')) RUNNERS
        \<and> list_all (\<lambda>(g, ps). \<not> match_patterns ps (extractBaseCommand ''   '')) COMMAND_GROUPS"
    by code_simp
  have 2: "list_all (\<lambda>r. \<not> startsWith (extractBaseCommand ''cd'') (r @ '' '')) RUNNERS
        \<and> list_all (\<lambda>(g, ps). \<not> match_patterns ps (extractBaseCommand ''cd'')) COMMAND_GROUPS"
    by code_simp
  have 3: "list_all (\<lambda>r. \<not> startsWith (extractBaseCommand ''=== && ;; \"'') (r @ '' '')) RUNNERS
        \<and> list_all (\<lambda>(g, ps). \<not> match_patterns ps (extractBaseCommand ''=== && ;; \"''))
              COMMAND_GROUPS"
    by code_simp
  have "classifyCommand ''   '' = ''other''"
    using classify_total [of "''   ''"] 1 by blast
  moreover have "classifyCommand ''cd'' = ''other''"
    using classify_total [of "''cd''"] 2 by blast
  moreover have "classifyCommand ''=== && ;; \"'' = ''other''"
    using classify_total [of "''=== && ;; \"''"] 3 by blast
  ultimately show ?thesis
    by blast
qed

text \<open>
  C9. For a character count up to ten million the estimate is the ceiling of a
  quarter of the count: the least number of tokens whose fourfold covers the count,
  \<open>(chars + 3) div 4\<close>. The estimate of 0 is 0.
\<close>

theorem estimateTokens_ceiling:
  "(chars \<le> 10000000 \<longrightarrow>
      int (estimateTokens chars) = \<lceil>real chars / 4\<rceil>
      \<and> estimateTokens chars = (chars + 3) div 4
      \<and> chars \<le> 4 * estimateTokens chars
      \<and> 4 * estimateTokens chars < chars + 4)
   \<and> estimateTokens 0 = 0"
proof (intro conjI impI)
  show "int (estimateTokens chars) = \<lceil>real chars / 4\<rceil>"
  proof -
    have "0 \<le> \<lceil>real chars / 4\<rceil>"
      by (simp add: ceiling_le_iff le_ceiling_iff)
    then show ?thesis
      by (simp add: estimateTokens_def CHARS_PER_TOKEN_def)
  qed
  show "estimateTokens chars = (chars + 3) div 4"
    by (rule estimateTokens_div)
  show "chars \<le> 4 * estimateTokens chars"
    unfolding estimateTokens_div by presburger
  show "4 * estimateTokens chars < chars + 4"
    unfolding estimateTokens_div by presburger
  show "estimateTokens 0 = 0"
    by (simp add: estimateTokens_div)
qed

theorem estimateTokens_ceiling_witness:
  "estimateTokens 10000000 = 2500000 \<and> estimateTokens 9999997 = 2500000
   \<and> estimateTokens 1 = 1"
  using estimateTokens_ceiling [of 10000000] estimateTokens_ceiling [of 9999997]
    estimateTokens_ceiling [of 1]
  by simp

text \<open>
  C10. \<^verbatim>\<open>pnpm i\<close> is a pattern of the entry \<open>npm install\<close>. A base command that
  contains it, starts with no runner and contains no pattern of an entry listed
  before \<open>npm install\<close> is classified \<open>npm install\<close>; so is \<^verbatim>\<open>pnpm init\<close>.
\<close>

theorem pnpm_i_is_npm_install:
  "(includes_str (extractBaseCommand c) ''pnpm i''
      \<and> list_all (\<lambda>r. \<not> startsWith (extractBaseCommand c) (r @ '' '')) RUNNERS
      \<and> list_all (\<lambda>(g, ps). \<not> match_patterns ps (extractBaseCommand c))
           (takeWhile (\<lambda>(g, ps). g \<noteq> ''npm install'') COMMAND_GROUPS)
      \<longrightarrow> classifyCommand c = ''npm install'')
   \<and> list_ex (\<lambda>(g, ps). g = ''npm install'' \<and> ''pnpm i'' \<in> set ps) COMMAND_GROUPS
   \<and> classifyCommand ''pnpm init'' = ''npm install''"
proof (intro conjI impI)
  let ?base = "extractBaseCommand c"
  assume h: "includes_str ?base ''pnpm i''
      \<and> list_all (\<lambda>r. \<not> startsWith ?base (r @ '' '')) RUNNERS
      \<and> list_all (\<lambda>(g, ps). \<not> match_patterns ps ?base)
           (takeWhile (\<lambda>(g, ps). g \<noteq> ''npm install'') COMMAND_GROUPS)"
  then have "classify_runner RUNNERS ?base = None"
    by (simp add: classify_runner_None)
  moreover have "classify_group COMMAND_GROUPS ?base = Some ''npm install''"
    using h by (simp add: COMMAND_GROUPS_def)
  ultimately show "classifyCommand c = ''npm install''"
    by (simp add: classifyCommand_def)
next
  show "list_ex (\<lambda>(g, ps). g = ''npm install'' \<and> ''pnpm i'' \<in> set ps) COMMAND_GROUPS"
    by (simp add: COMMAND_GROUPS_def)
  show "classifyCommand ''pnpm init'' = ''npm install''"
    by (rule classify_examples)
qed

theorem pnpm_i_is_npm_install_witness:
  "includes_str (extractBaseCommand ''cd x; pnpm info left-pad'') ''pnpm i''
   \<and> classifyCommand ''cd x; pnpm info left-pad'' = ''npm install''"
proof -
  let ?c = "''cd x; pnpm info left-pad''"
  have 1: "includes_str (extractBaseCommand ?c) ''pnpm i''"
    by code_simp
  have 2: "list_all (\<lambda>r. \<not> startsWith (extractBaseCommand ?c) (r @ '' '')) RUNNERS"
    by code_simp
  have 3: "list_all (\<lambda>(g, ps). \<not> match_patterns ps (extractBaseCommand ?c))
           (takeWhile (\<lambda>(g, ps). g \<noteq> ''npm install'') COMMAND_GROUPS)"
    by code_simp
  from pnpm_i_is_npm_install [of ?c] 1 2 3 show ?thesis
    by blast
qed


end
